theory Spec2Isabelle
  imports Main
begin

section \<open>Python values\<close>

text \<open>
  A Python \<open>str\<close> is a sequence of Unicode code points; \<open>len\<close> counts code points and
  \<open>chr\<close> reaches far beyond one byte, so a string is a list of code points here.
\<close>

type_synonym ustr = "nat list"

definition str :: "string \<Rightarrow> ustr" where
  "str s = map of_char s"

abbreviation ch :: "char \<Rightarrow> nat" where
  "ch c \<equiv> of_char c"

definition startswith :: "ustr \<Rightarrow> ustr \<Rightarrow> bool" where
  \<comment> \<open>\<open>s.startswith(p)\<close>\<close>
  "startswith s p = (take (length p) s = p)"

text \<open>The exceptions that no handler of \<open>transit.py\<close> catches.\<close>

datatype error = TypeError | OverflowError | ValueError

text \<open>
  The tree \<open>json.loads\<close> produces (and the tree a caller may pass already parsed):
  \<open>None\<close>, \<open>bool\<close>, \<open>int\<close>, \<open>float\<close>, \<open>str\<close>, \<open>list\<close>, and \<open>dict\<close> with \<open>str\<close> keys
  in insertion order. The type \<open>'f\<close> is Python's \<open>float\<close>.
\<close>

datatype 'f json =
    JNull
  | JBool bool
  | JInt int
  | JFloat 'f
  | JStr ustr
  | JArr "'f json list"
  | JObj "(ustr \<times> 'f json) list"

text \<open>What the decoder returns; a \<open>dict\<close> is the list of its items in insertion order.\<close>

datatype 'f decoded =
    DNone
  | DBool bool
  | DInt int
  | DFloat 'f
  | DStr ustr
  | DList "'f decoded list"
  | DDict "('f decoded \<times> 'f decoded) list"

text \<open>
  What the decoder takes from the Python runtime and not from this repository: the
  \<open>float\<close> type with its parser and its equality, the conversion of an epoch to an
  ISO-8601 text, \<open>str()\<close> of a tree, and the Unicode tables behind \<open>int()\<close>.
\<close>

record 'f platform =
  py_float :: "ustr \<Rightarrow> 'f option"
    \<comment> \<open>\<open>float(s)\<close>; \<open>None\<close> when it raises \<open>ValueError\<close>\<close>
  float_eq :: "'f \<Rightarrow> 'f \<Rightarrow> bool"
    \<comment> \<open>whether two floats are the same \<open>dict\<close> key\<close>
  float_eq_int :: "'f \<Rightarrow> int \<Rightarrow> bool"
    \<comment> \<open>whether a float and an \<open>int\<close> are the same \<open>dict\<close> key\<close>
  utc_iso :: "int \<Rightarrow> error + ustr option"
    \<comment> \<open>\<open>datetime.fromtimestamp(n / 1000.0, tz=timezone.utc).isoformat()\<close> for an \<open>n\<close>
        that converts to a float: \<open>Inr None\<close> when it raises \<open>ValueError\<close> or \<open>OSError\<close>,
        \<open>Inl\<close> when it raises anything else\<close>
  py_str :: "'f json \<Rightarrow> ustr"
    \<comment> \<open>\<open>str(x)\<close> of a tree that is not a \<open>str\<close>\<close>
  unicode_space :: "nat \<Rightarrow> bool"
    \<comment> \<open>\<open>Py_UNICODE_ISSPACE\<close> on a code point beyond ASCII\<close>
  unicode_decimal :: "nat \<Rightarrow> nat option"
    \<comment> \<open>\<open>Py_UNICODE_TODECIMAL\<close> on a code point beyond ASCII\<close>
  int_max_str_digits :: nat
    \<comment> \<open>\<open>sys.get_int_max_str_digits()\<close>; \<open>0\<close> when there is no limit\<close>

subsection \<open>\<open>int(s)\<close>\<close>

definition int_space :: "'f platform \<Rightarrow> nat \<Rightarrow> bool" where
  "int_space P c = (if c < 128 then c = 32 \<or> (9 \<le> c \<and> c \<le> 13) else unicode_space P c)"

definition int_digit :: "'f platform \<Rightarrow> nat \<Rightarrow> nat option" where
  "int_digit P c =
     (if c < 128 then (if 48 \<le> c \<and> c \<le> 57 then Some (c - 48) else None)
      else unicode_decimal P c)"

text \<open>
  The digits of a decimal literal: single underscores are allowed between digits only.
  Returns the value and the number of digits.
\<close>

fun int_body :: "'f platform \<Rightarrow> ustr \<Rightarrow> bool \<Rightarrow> nat \<Rightarrow> nat \<Rightarrow> (nat \<times> nat) option" where
  "int_body P [] prev acc cnt = (if prev then Some (acc, cnt) else None)"
| "int_body P (c # cs) prev acc cnt =
     (if c = ch CHR ''_'' then
        (if prev \<and> cs \<noteq> [] then int_body P cs False acc cnt else None)
      else
        (case int_digit P c of
           None \<Rightarrow> None
         | Some d \<Rightarrow> int_body P cs True (acc * 10 + d) (Suc cnt)))"

definition too_many_digits :: "'f platform \<Rightarrow> nat \<Rightarrow> bool" where
  \<comment> \<open>the limit applies above 640 digits only\<close>
  "too_many_digits P n = (640 < n \<and> 0 < int_max_str_digits P \<and> int_max_str_digits P < n)"

definition py_int :: "'f platform \<Rightarrow> ustr \<Rightarrow> int option" where
  \<comment> \<open>\<open>int(s)\<close>; \<open>None\<close> when it raises \<open>ValueError\<close>\<close>
  "py_int P s =
     (let t = rev (dropWhile (int_space P) (rev (dropWhile (int_space P) s)));
          neg = (t \<noteq> [] \<and> hd t = ch CHR ''-'');
          body = (if t \<noteq> [] \<and> (hd t = ch CHR ''-'' \<or> hd t = ch CHR ''+'') then tl t else t)
      in case int_body P body False 0 0 of
           None \<Rightarrow> None
         | Some (v, n) \<Rightarrow>
             if too_many_digits P n then None
             else Some (if neg then - int v else int v))"

definition float_overflow :: "int \<Rightarrow> bool" where
  \<comment> \<open>\<open>n / 1000.0\<close> converts \<open>n\<close> to a float first, and raises \<open>OverflowError\<close> when
      \<open>n\<close> rounds beyond the largest double\<close>
  "float_overflow n = (2 ^ 1024 - 2 ^ 970 \<le> \<bar>n\<bar>)"

section \<open>The cache table\<close>

record cache =
  cache_map :: "ustr \<rightharpoonup> ustr"
  cache_idx :: nat

definition new_cache :: cache where
  "new_cache = \<lparr>cache_map = Map.empty, cache_idx = 0\<rparr>"

definition CACHE_BASE :: nat where
  "CACHE_BASE = 44"

definition CACHE_BASE_CHAR :: nat where
  "CACHE_BASE_CHAR = 48"

definition ALWAYS_CACHEABLE_TAGS :: "nat set" where
  "ALWAYS_CACHEABLE_TAGS = {ch CHR '':'', ch CHR ''$'', ch CHR ''#''}"

definition chr :: "nat \<Rightarrow> error + nat" where
  \<comment> \<open>\<open>chr(n)\<close> raises \<open>ValueError\<close> beyond the last code point\<close>
  "chr n = (if n \<le> 0x10FFFF then Inr n else Inl ValueError)"

definition ref_for :: "nat \<Rightarrow> error + ustr" where
  "ref_for idx =
     (if idx < CACHE_BASE then
        (case chr (CACHE_BASE_CHAR + idx) of
           Inl e \<Rightarrow> Inl e
         | Inr a \<Rightarrow> Inr [ch CHR ''^'', a])
      else
        (let hi = idx div CACHE_BASE; lo = idx mod CACHE_BASE in
         case chr (CACHE_BASE_CHAR + hi) of
           Inl e \<Rightarrow> Inl e
         | Inr a \<Rightarrow>
             (case chr (CACHE_BASE_CHAR + lo) of
                Inl e \<Rightarrow> Inl e
              | Inr b \<Rightarrow> Inr [ch CHR ''^'', a, b])))"

definition cache :: "ustr \<Rightarrow> bool \<Rightarrow> cache \<Rightarrow> error + cache" where
  "cache s as_key c =
     (if length s < 4 then Inr c
      else if as_key \<or> (s ! 0 = ch CHR ''~'' \<and> 2 \<le> length s \<and> s ! 1 \<in> ALWAYS_CACHEABLE_TAGS) then
        (case ref_for (cache_idx c) of
           Inl e \<Rightarrow> Inl e
         | Inr ref \<Rightarrow> Inr \<lparr>cache_map = (cache_map c)(ref \<mapsto> s), cache_idx = cache_idx c + 1\<rparr>)
      else Inr c)"

definition resolve :: "cache \<Rightarrow> ustr \<Rightarrow> ustr option" where
  "resolve c ref = cache_map c ref"

definition is_cache_ref :: "ustr \<Rightarrow> bool" where
  "is_cache_ref s = (2 \<le> length s \<and> s ! 0 = ch CHR ''^'')"

section \<open>The tagged scalar parser\<close>

definition parse_tagged :: "'f platform \<Rightarrow> ustr \<Rightarrow> error + 'f decoded" where
  "parse_tagged P s =
     (if length s < 2 \<or> s ! 0 \<noteq> ch CHR ''~'' then Inr (DStr s)
      else
        (let tag = s ! 1; rest = drop 2 s in
         if tag = ch CHR '':'' then Inr (DStr rest)
         else if tag = ch CHR ''u'' then Inr (DStr rest)
         else if tag = ch CHR ''m'' then
           (case py_int P rest of
              None \<Rightarrow> Inr (DStr s)
            | Some n \<Rightarrow>
                if float_overflow n then Inl OverflowError
                else
                  (case utc_iso P n of
                     Inl e \<Rightarrow> Inl e
                   | Inr None \<Rightarrow> Inr (DStr s)
                   | Inr (Some t) \<Rightarrow> Inr (DStr t)))
         else if tag = ch CHR ''t'' then Inr (DStr rest)
         else if tag = ch CHR ''?'' then Inr (DBool (rest = str ''t''))
         else if tag = ch CHR ''i'' then
           (case py_int P rest of None \<Rightarrow> Inr (DStr s) | Some n \<Rightarrow> Inr (DInt n))
         else if tag = ch CHR ''d'' then
           (case py_float P rest of None \<Rightarrow> Inr (DStr s) | Some x \<Rightarrow> Inr (DFloat x))
         else if tag = ch CHR ''n'' then
           (case py_int P rest of None \<Rightarrow> Inr (DStr s) | Some n \<Rightarrow> Inr (DInt n))
         else if tag = ch CHR ''~'' then Inr (DStr (ch CHR ''~'' # rest))
         else if tag = ch CHR ''^'' then Inr (DStr (ch CHR ''^'' # rest))
         else Inr (DStr s)))"

section \<open>The structural decoder\<close>

definition decode_str :: "'f platform \<Rightarrow> ustr \<Rightarrow> cache \<Rightarrow> bool \<Rightarrow> error + ('f decoded \<times> cache)" where
  "decode_str P s c as_key =
     (if is_cache_ref s then
        (case resolve c s of
           Some resolved \<Rightarrow>
             (case parse_tagged P resolved of
                Inl e \<Rightarrow> Inl e
              | Inr v \<Rightarrow> Inr (v, c))
         | None \<Rightarrow> Inr (DStr s, c))
      else
        (case cache s as_key c of
           Inl e \<Rightarrow> Inl e
         | Inr c1 \<Rightarrow>
             if 2 \<le> length s \<and> s ! 0 = ch CHR ''~'' then
               (case parse_tagged P s of
                  Inl e \<Rightarrow> Inl e
                | Inr v \<Rightarrow> Inr (v, c1))
             else Inr (DStr s, c1)))"

subsection \<open>\<open>out[key] = val\<close>\<close>

text \<open>
  A \<open>list\<close> or a \<open>dict\<close> is not hashable: using one as a key raises \<open>TypeError\<close>. Among
  hashable keys \<open>True == 1 == 1.0\<close>: a key that equals one already present keeps the old
  key and its place and takes the new value.
\<close>

fun hashable :: "'f decoded \<Rightarrow> bool" where
  "hashable (DList xs) = False"
| "hashable (DDict kvs) = False"
| "hashable v = True"

fun as_int :: "'f decoded \<Rightarrow> int option" where
  "as_int (DBool b) = Some (if b then 1 else 0)"
| "as_int (DInt n) = Some n"
| "as_int v = None"

fun py_eq :: "'f platform \<Rightarrow> 'f decoded \<Rightarrow> 'f decoded \<Rightarrow> bool" where
  "py_eq P DNone b = (b = DNone)"
| "py_eq P (DStr s) b = (b = DStr s)"
| "py_eq P (DFloat x) (DFloat y) = float_eq P x y"
| "py_eq P (DFloat x) b = (case as_int b of Some n \<Rightarrow> float_eq_int P x n | None \<Rightarrow> False)"
| "py_eq P a (DFloat y) = (case as_int a of Some n \<Rightarrow> float_eq_int P y n | None \<Rightarrow> False)"
| "py_eq P a b = (case (as_int a, as_int b) of (Some m, Some n) \<Rightarrow> m = n | _ \<Rightarrow> False)"

fun dict_update :: "'f platform \<Rightarrow> 'f decoded \<Rightarrow> 'f decoded \<Rightarrow> ('f decoded \<times> 'f decoded) list
    \<Rightarrow> ('f decoded \<times> 'f decoded) list" where
  "dict_update P k v [] = [(k, v)]"
| "dict_update P k v ((k', v') # kvs) =
     (if py_eq P k' k then (k', v) # kvs else (k', v') # dict_update P k v kvs)"

definition dict_set :: "'f platform \<Rightarrow> 'f decoded \<Rightarrow> 'f decoded \<Rightarrow> ('f decoded \<times> 'f decoded) list
    \<Rightarrow> error + ('f decoded \<times> 'f decoded) list" where
  "dict_set P k v out = (if hashable k then Inr (dict_update P k v out) else Inl TypeError)"

subsection \<open>The head of an array\<close>

definition tag_header :: "'f json \<Rightarrow> cache \<Rightarrow> error + (ustr option \<times> cache)" where
  \<comment> \<open>lines 177 to 187 of \<open>_decode_list\<close>: the tag string, a literal or a cache reference\<close>
  "tag_header first c =
     (case first of
        JStr f \<Rightarrow>
          if startswith f (str ''~#'') then
            (case cache f False c of
               Inl e \<Rightarrow> Inl e
             | Inr c1 \<Rightarrow> Inr (Some f, c1))
          else if is_cache_ref f then
            (case resolve c f of
               Some resolved \<Rightarrow>
                 if startswith resolved (str ''~#'') then Inr (Some resolved, c)
                 else Inr (None, c)
             | None \<Rightarrow> Inr (None, c))
          else Inr (None, c)
      | _ \<Rightarrow> Inr (None, c))"

definition isinstance_list :: "'f json \<Rightarrow> bool" where
  \<comment> \<open>\<open>isinstance(payload, list)\<close>\<close>
  "isinstance_list j = (case j of JArr xs \<Rightarrow> True | _ \<Rightarrow> False)"

definition list_items :: "'f json \<Rightarrow> 'f json list" where
  \<comment> \<open>the elements of a \<open>list\<close>\<close>
  "list_items j = (case j of JArr xs \<Rightarrow> xs | _ \<Rightarrow> [])"

lemma isinstance_list_simps [simp]:
  "isinstance_list (JArr xs)" "\<not> isinstance_list JNull" "\<not> isinstance_list (JBool b)"
  "\<not> isinstance_list (JInt n)" "\<not> isinstance_list (JFloat x)" "\<not> isinstance_list (JStr s)"
  "\<not> isinstance_list (JObj kvs)"
  by (simp_all add: isinstance_list_def)

lemma list_items_JArr [simp]: "list_items (JArr xs) = xs"
  by (simp add: list_items_def)

lemma size_list_items: "isinstance_list j \<Longrightarrow> size_list size (list_items j) < size j"
  by (cases j) (simp_all add: isinstance_list_def list_items_def)

lemma size_hd: "xs \<noteq> [] \<Longrightarrow> size (hd xs) < size_list size xs"
  by (cases xs) simp_all

function (sequential) decode :: "'f platform \<Rightarrow> 'f json \<Rightarrow> cache \<Rightarrow> bool \<Rightarrow> error + ('f decoded \<times> cache)"
  and decode_list :: "'f platform \<Rightarrow> 'f json list \<Rightarrow> cache \<Rightarrow> error + ('f decoded \<times> cache)"
  and decode_tagged_verbose ::
    "'f platform \<Rightarrow> ustr \<Rightarrow> 'f json \<Rightarrow> cache \<Rightarrow> error + ('f decoded \<times> cache)"
  and decode_elems :: "'f platform \<Rightarrow> 'f json \<Rightarrow> cache \<Rightarrow> error + ('f decoded \<times> cache)"
  and decode_each :: "'f platform \<Rightarrow> 'f json list \<Rightarrow> cache \<Rightarrow> error + ('f decoded list \<times> cache)"
  and decode_pairs :: "'f platform \<Rightarrow> 'f json list \<Rightarrow> ('f decoded \<times> 'f decoded) list \<Rightarrow> cache
    \<Rightarrow> error + ('f decoded \<times> cache)"
  and decode_items :: "'f platform \<Rightarrow> (ustr \<times> 'f json) list \<Rightarrow> ('f decoded \<times> 'f decoded) list
    \<Rightarrow> cache \<Rightarrow> error + ('f decoded \<times> cache)"
where
  "decode P (JStr s) c as_key = decode_str P s c as_key"
| "decode P (JArr lst) c as_key = decode_list P lst c"
| "decode P (JObj kvs) c as_key =
     (if length kvs = 1 \<and> startswith (fst (hd kvs)) (str ''~#'') then
        (case cache (fst (hd kvs)) False c of
           Inl e \<Rightarrow> Inl e
         | Inr c1 \<Rightarrow> decode_tagged_verbose P (drop 2 (fst (hd kvs))) (snd (hd kvs)) c1)
      else decode_items P kvs [] c)"
| "decode P JNull c as_key = Inr (DNone, c)"
| "decode P (JBool b) c as_key = Inr (DBool b, c)"
| "decode P (JInt n) c as_key = Inr (DInt n, c)"
| "decode P (JFloat x) c as_key = Inr (DFloat x, c)"

| "decode_list P [] c = Inr (DList [], c)"
| "decode_list P (first # others) c =
     (if first = JStr (str ''^ '') then decode_pairs P others [] c
      else
        (case tag_header first c of
           Inl e \<Rightarrow> Inl e
         | Inr (tag_str, c1) \<Rightarrow>
             if tag_str \<noteq> None \<and> others \<noteq> [] then
               (let tag = drop 2 (the tag_str); payload = hd others in
                if tag = str ''set'' then decode_elems P payload c1
                else if tag = str ''list'' then decode_elems P payload c1
                else if tag = str ''cmap'' \<and> isinstance_list payload then
                  decode_pairs P (list_items payload) [] c1
                else if tag = str ''ordered-set'' then decode_elems P payload c1
                else decode P payload c1 False)
             else
               (case decode_each P (first # others) c1 of
                  Inl e \<Rightarrow> Inl e
                | Inr (vs, c2) \<Rightarrow> Inr (DList vs, c2))))"

| "decode_tagged_verbose P tag payload c =
     (if tag = str ''uri'' then
        (case payload of
           JStr s \<Rightarrow> Inr (DStr s, c)
         | _ \<Rightarrow> Inr (DStr (py_str P payload), c))
      else if tag = str ''set'' then decode_elems P payload c
      else if tag = str ''list'' then decode_elems P payload c
      else if tag = str ''cmap'' \<and> isinstance_list payload then
        decode_pairs P (list_items payload) [] c
      else if tag = str ''ordered-set'' then decode_elems P payload c
      else decode P payload c False)"

| "decode_elems P payload c =
     (if isinstance_list payload then
        (case decode_each P (list_items payload) c of
           Inl e \<Rightarrow> Inl e
         | Inr (vs, c1) \<Rightarrow> Inr (DList vs, c1))
      else
        (case decode P payload c False of
           Inl e \<Rightarrow> Inl e
         | Inr (v, c1) \<Rightarrow> Inr (DList [v], c1)))"

| "decode_each P [] c = Inr ([], c)"
| "decode_each P (e # es) c =
     (case decode P e c False of
        Inl err \<Rightarrow> Inl err
      | Inr (v, c1) \<Rightarrow>
          (case decode_each P es c1 of
             Inl err \<Rightarrow> Inl err
           | Inr (vs, c2) \<Rightarrow> Inr (v # vs, c2)))"

| "decode_pairs P (k # v # others) out c =
     (case decode P k c True of
        Inl e \<Rightarrow> Inl e
      | Inr (key, c1) \<Rightarrow>
          (case decode P v c1 False of
             Inl e \<Rightarrow> Inl e
           | Inr (val, c2) \<Rightarrow>
               (case dict_set P key val out of
                  Inl e \<Rightarrow> Inl e
                | Inr out' \<Rightarrow> decode_pairs P others out' c2)))"
| "decode_pairs P [k] out c = Inr (DDict out, c)"
| "decode_pairs P [] out c = Inr (DDict out, c)"

| "decode_items P [] out c = Inr (DDict out, c)"
| "decode_items P ((k, v) # kvs) out c =
     (case decode_str P k c True of
        Inl e \<Rightarrow> Inl e
      | Inr (dk, c1) \<Rightarrow>
          (case decode P v c1 False of
             Inl e \<Rightarrow> Inl e
           | Inr (dv, c2) \<Rightarrow>
               (case dict_set P dk dv out of
                  Inl e \<Rightarrow> Inl e
                | Inr out' \<Rightarrow> decode_items P kvs out' c2)))"
  by pat_completeness auto

termination
proof (relation "measure (\<lambda>x. case x of
       Inl a \<Rightarrow> (case a of
           Inl (P, j, c, k) \<Rightarrow> 4 * size j
         | Inr b \<Rightarrow> (case b of
               Inl (P, lst, c) \<Rightarrow> 4 * size_list size lst + 1
             | Inr (P, tag, payload, c) \<Rightarrow> 4 * size payload + 2))
     | Inr a \<Rightarrow> (case a of
           Inl b \<Rightarrow> (case b of
               Inl (P, payload, c) \<Rightarrow> 4 * size payload + 1
             | Inr (P, es, c) \<Rightarrow> 4 * size_list size es)
         | Inr b \<Rightarrow> (case b of
               Inl (P, items, out, c) \<Rightarrow> 4 * size_list size items
             | Inr (P, kvs, out, c) \<Rightarrow> 4 * size_list (size_prod (\<lambda>_. 0) size) kvs)))",
    goal_cases)
  case 1
  then show ?case by simp
next
  case (2 P lst c as_key)
  then show ?case by simp
next
  case (3 P kvs c as_key x2)
  then show ?case by (cases kvs) (auto simp: length_Suc_conv)
next
  case (4 P kvs c as_key)
  then show ?case by simp
next
  case (5 P first others c)
  then show ?case by simp
next
  case (6 P first others c b x y xa xb)
  then show ?case using size_hd [of others] by simp
next
  case (7 P first others c b x y xa xb)
  then show ?case using size_hd [of others] by simp
next
  case (8 P first others c b x y xa xb)
  then show ?case using size_hd [of others] size_list_items [of "hd others"] by simp
next
  case (9 P first others c b x y xa xb)
  then show ?case using size_hd [of others] by simp
next
  case (10 P first others c b x y xa xb)
  then show ?case using size_hd [of others] by simp
next
  case (11 P first others c b x y)
  then show ?case by simp
next
  case (12 P tag payload c)
  then show ?case by simp
next
  case (13 P tag payload c)
  then show ?case by simp
next
  case (14 P tag payload c)
  then show ?case using size_list_items [of payload] by simp
next
  case (15 P tag payload c)
  then show ?case by simp
next
  case (16 P tag payload c)
  then show ?case by simp
next
  case (17 P payload c)
  then show ?case using size_list_items [of payload] by simp
next
  case (18 P payload c)
  then show ?case by simp
next
  case (19 P e es c)
  then show ?case by simp
next
  case (20 P e es c x y)
  then show ?case by simp
next
  case (21 P k v others out c)
  then show ?case by simp
next
  case (22 P k v others out c x y)
  then show ?case by simp
next
  case (23 P k v others out c x y xa ya xb)
  then show ?case by simp
next
  case (24 P k v kvs out c x y)
  then show ?case by simp
next
  case (25 P k v kvs out c x y xa ya xb)
  then show ?case by simp
qed

section \<open>\<open>json.loads\<close>\<close>

text \<open>
  The scanner of CPython's \<open>json\<close> module with its defaults (\<open>strict=True\<close>, no hooks).
  \<open>Bad\<close> is \<open>JSONDecodeError\<close>; \<open>Raise\<close> is any other exception; \<open>Good v r\<close> is the value
  and the text after it. The interpreter's recursion limit is not part of the model.
\<close>

datatype 'a scan = Raise error | Bad | Good 'a ustr

definition json_space :: "nat \<Rightarrow> bool" where
  "json_space c = (c = 32 \<or> c = 9 \<or> c = 10 \<or> c = 13)"

definition skip_ws :: "ustr \<Rightarrow> ustr" where
  "skip_ws s = dropWhile json_space s"

definition is_digit :: "nat \<Rightarrow> bool" where
  "is_digit c = (48 \<le> c \<and> c \<le> 57)"

definition hex_digit :: "nat \<Rightarrow> nat option" where
  "hex_digit c =
     (if 48 \<le> c \<and> c \<le> 57 then Some (c - 48)
      else if 97 \<le> c \<and> c \<le> 102 then Some (c - 87)
      else if 65 \<le> c \<and> c \<le> 70 then Some (c - 55)
      else None)"

definition hex4 :: "ustr \<Rightarrow> nat option" where
  "hex4 s =
     (case s of
        a # b # c # d # _ \<Rightarrow>
          (case (hex_digit a, hex_digit b, hex_digit c, hex_digit d) of
             (Some w, Some x, Some y, Some z) \<Rightarrow> Some (((w * 16 + x) * 16 + y) * 16 + z)
           | _ \<Rightarrow> None)
      | _ \<Rightarrow> None)"

definition unescape :: "nat \<Rightarrow> nat option" where
  "unescape e =
     (if e = ch (CHR 0x22) then Some 0x22
      else if e = ch (CHR 0x5C) then Some 0x5C
      else if e = ch CHR ''/'' then Some 0x2F
      else if e = ch CHR ''b'' then Some 8
      else if e = ch CHR ''f'' then Some 12
      else if e = ch CHR ''n'' then Some 10
      else if e = ch CHR ''r'' then Some 13
      else if e = ch CHR ''t'' then Some 9
      else None)"

definition string_step :: "ustr \<Rightarrow> (nat \<times> ustr) option" where
  \<comment> \<open>one character of a string literal, an escape decoded; \<open>None\<close> is an error\<close>
  "string_step s =
     (case s of
        [] \<Rightarrow> None
      | c # cs \<Rightarrow>
          if c = ch (CHR 0x5C) then
            (case cs of
               [] \<Rightarrow> None
             | e # r \<Rightarrow>
                 if e = ch CHR ''u'' then
                   (case hex4 r of
                      None \<Rightarrow> None
                    | Some u \<Rightarrow>
                        (let r4 = drop 4 r in
                         if 0xD800 \<le> u \<and> u \<le> 0xDBFF \<and> 7 \<le> length r4
                            \<and> take 2 r4 = [ch (CHR 0x5C), ch CHR ''u''] then
                           (case hex4 (drop 2 r4) of
                              None \<Rightarrow> None
                            | Some u2 \<Rightarrow>
                                if 0xDC00 \<le> u2 \<and> u2 \<le> 0xDFFF then
                                  Some (0x10000 + (u - 0xD800) * 0x400 + (u2 - 0xDC00), drop 6 r4)
                                else Some (u, r4))
                         else Some (u, r4)))
                 else
                   (case unescape e of
                      None \<Rightarrow> None
                    | Some x \<Rightarrow> Some (x, r)))
          else if c \<le> 0x1F then None
          else Some (c, cs))"

lemma string_step_shorter: "string_step s = Some (x, r) \<Longrightarrow> length r < length s"
  by (auto simp: string_step_def Let_def split: list.splits if_splits option.splits)

function scanstring :: "ustr \<Rightarrow> (ustr \<times> ustr) option" where
  \<comment> \<open>the text after the opening quote: the string and the text after the closing quote\<close>
  "scanstring s =
     (case s of
        [] \<Rightarrow> None
      | c # cs \<Rightarrow>
          if c = ch (CHR 0x22) then Some ([], cs)
          else
            (case string_step s of
               None \<Rightarrow> None
             | Some (x, r) \<Rightarrow>
                 (case scanstring r of
                    None \<Rightarrow> None
                  | Some (t, r') \<Rightarrow> Some (x # t, r'))))"
  by pat_completeness auto

termination
  by (relation "measure length") (auto dest: string_step_shorter)

declare scanstring.simps [simp del]

definition decimal_value :: "ustr \<Rightarrow> nat" where
  "decimal_value ds = foldl (\<lambda>a d. a * 10 + (d - 48)) 0 ds"

definition match_number :: "'f platform \<Rightarrow> ustr \<Rightarrow> 'f json scan" where
  "match_number P s =
     (let neg = (s \<noteq> [] \<and> hd s = ch CHR ''-'');
          s1 = (if neg then tl s else s)
      in case s1 of
           [] \<Rightarrow> Bad
         | d # r \<Rightarrow>
             if \<not> is_digit d then Bad
             else
               (let ip = (if d = ch CHR ''0'' then [d] else takeWhile is_digit s1);
                    r1 = drop (length ip) s1;
                    frac = (case r1 of
                              p # f # _ \<Rightarrow>
                                if p = ch CHR ''.'' \<and> is_digit f then p # takeWhile is_digit (tl r1)
                                else []
                            | _ \<Rightarrow> []);
                    r2 = drop (length frac) r1;
                    ex = (case r2 of
                            e # r3 \<Rightarrow>
                              if e = ch CHR ''e'' \<or> e = ch CHR ''E'' then
                                (let sg = (case r3 of
                                             g # _ \<Rightarrow>
                                               if g = ch CHR ''+'' \<or> g = ch CHR ''-'' then [g] else []
                                           | [] \<Rightarrow> []);
                                     ds = takeWhile is_digit (drop (length sg) r3)
                                 in if ds = [] then [] else e # sg @ ds)
                              else []
                          | [] \<Rightarrow> []);
                    r4 = drop (length ex) r2
                in if frac \<noteq> [] \<or> ex \<noteq> [] then
                     (case py_float P ((if neg then [ch CHR ''-''] else []) @ ip @ frac @ ex) of
                        None \<Rightarrow> Bad
                      | Some x \<Rightarrow> Good (JFloat x) r4)
                   else if too_many_digits P (length ip) then Raise ValueError
                   else Good (JInt (if neg then - int (decimal_value ip) else int (decimal_value ip))) r4))"

definition float_constant :: "'f platform \<Rightarrow> string \<Rightarrow> ustr \<Rightarrow> 'f json scan" where
  "float_constant P name r =
     (case py_float P (str name) of None \<Rightarrow> Bad | Some x \<Rightarrow> Good (JFloat x) r)"

definition scan_atom :: "'f platform \<Rightarrow> ustr \<Rightarrow> 'f json scan" where
  "scan_atom P s =
     (if take 4 s = str ''null'' then Good JNull (drop 4 s)
      else if take 4 s = str ''true'' then Good (JBool True) (drop 4 s)
      else if take 5 s = str ''false'' then Good (JBool False) (drop 5 s)
      else if take 3 s = str ''NaN'' then float_constant P ''nan'' (drop 3 s)
      else if take 8 s = str ''Infinity'' then float_constant P ''inf'' (drop 8 s)
      else if take 9 s = str ''-Infinity'' then float_constant P ''-inf'' (drop 9 s)
      else match_number P s)"

fun obj_set :: "ustr \<Rightarrow> 'f json \<Rightarrow> (ustr \<times> 'f json) list \<Rightarrow> (ustr \<times> 'f json) list" where
  "obj_set k v [] = [(k, v)]"
| "obj_set k v ((k', v') # kvs) =
     (if k' = k then (k', v) # kvs else (k', v') # obj_set k v kvs)"

lemma length_skip_ws: "length (skip_ws s) \<le> length s"
  by (simp add: skip_ws_def length_dropWhile_le)

lemma skip_ws_Cons_shorter: "skip_ws s = d # r \<Longrightarrow> length r < length s"
  using length_skip_ws [of s] by simp

lemma skip_ws_bound: "2 * length s < n \<Longrightarrow> 2 * length (skip_ws s) < n"
  using length_skip_ws [of s] by simp

lemma skip_ws_less: "length s < n \<Longrightarrow> length (skip_ws s) < n"
  using length_skip_ws [of s] by simp

lemma less_skip_ws: "n < length (skip_ws s) \<Longrightarrow> n < length s"
  using length_skip_ws [of s] by simp

function (sequential) scan_once :: "'f platform \<Rightarrow> ustr \<Rightarrow> 'f json scan"
  and parse_elems :: "'f platform \<Rightarrow> ustr \<Rightarrow> 'f json list \<Rightarrow> 'f json scan"
  and parse_members :: "'f platform \<Rightarrow> ustr \<Rightarrow> (ustr \<times> 'f json) list \<Rightarrow> 'f json scan"
where
  "scan_once P [] = Bad"
| "scan_once P (c # cs) =
     (if c = ch (CHR 0x22) then
        (case scanstring cs of
           None \<Rightarrow> Bad
         | Some (t, r) \<Rightarrow> Good (JStr t) r)
      else if c = ch CHR ''{'' then
        (case skip_ws cs of
           [] \<Rightarrow> Bad
         | d # r \<Rightarrow>
             if d = ch CHR ''}'' then Good (JObj []) r
             else parse_members P (d # r) [])
      else if c = ch CHR ''['' then
        (case skip_ws cs of
           [] \<Rightarrow> Bad
         | d # r \<Rightarrow>
             if d = ch CHR '']'' then Good (JArr []) r
             else parse_elems P (d # r) [])
      else scan_atom P (c # cs))"

| "parse_elems P s acc =
     (case scan_once P s of
        Good v r \<Rightarrow>
          if length r < length s then
            (case skip_ws r of
               [] \<Rightarrow> Bad
             | d # r2 \<Rightarrow>
                 if d = ch CHR '']'' then Good (JArr (acc @ [v])) r2
                 else if d = ch CHR '','' then parse_elems P (skip_ws r2) (acc @ [v])
                 else Bad)
          else Bad
      | Bad \<Rightarrow> Bad
      | Raise e \<Rightarrow> Raise e)"

| "parse_members P s acc =
     (case s of
        [] \<Rightarrow> Bad
      | q # s1 \<Rightarrow>
          if q \<noteq> ch (CHR 0x22) then Bad
          else
            (case scanstring s1 of
               None \<Rightarrow> Bad
             | Some (key, r) \<Rightarrow>
                 if \<not> length r < length s1 then Bad
                 else
                 (case skip_ws r of
                    [] \<Rightarrow> Bad
                  | d # r1 \<Rightarrow>
                      if d \<noteq> ch CHR '':'' then Bad
                      else
                        (case scan_once P (skip_ws r1) of
                           Good v r3 \<Rightarrow>
                             if length r3 < length (skip_ws r1) then
                               (case skip_ws r3 of
                                  [] \<Rightarrow> Bad
                                | e # r4 \<Rightarrow>
                                    if e = ch CHR ''}'' then Good (JObj (obj_set key v acc)) r4
                                    else if e = ch CHR '','' then
                                      parse_members P (skip_ws r4) (obj_set key v acc)
                                    else Bad)
                             else Bad
                         | Bad \<Rightarrow> Bad
                         | Raise x \<Rightarrow> Raise x))))"
  by pat_completeness auto

termination
  by (relation "measure (\<lambda>x. case x of
       Inl (P, s) \<Rightarrow> 2 * length s
     | Inr y \<Rightarrow> (case y of
           Inl (P, s, acc) \<Rightarrow> 2 * length s + 1
         | Inr (P, s, acc) \<Rightarrow> 2 * length s + 1))")
     (auto dest!: skip_ws_Cons_shorter less_skip_ws intro!: skip_ws_bound skip_ws_less)

definition json_loads :: "'f platform \<Rightarrow> ustr \<Rightarrow> error + 'f json option" where
  \<comment> \<open>\<open>json.loads(s)\<close>: \<open>Inr None\<close> when it raises \<open>JSONDecodeError\<close>\<close>
  "json_loads P s =
     (if s \<noteq> [] \<and> hd s = 0xFEFF then Inr None
      else
        (case scan_once P (skip_ws s) of
           Good v r \<Rightarrow> if skip_ws r = [] then Inr (Some v) else Inr None
         | Bad \<Rightarrow> Inr None
         | Raise e \<Rightarrow> Inl e))"

subsection \<open>The scanner consumes its input\<close>

lemma scanstring_shorter: "scanstring s = Some (t, r) \<Longrightarrow> length r < length s"
proof (induction s arbitrary: t r rule: scanstring.induct)
  case (1 s)
  show ?case
  proof (cases s)
    case Nil
    with "1.prems" show ?thesis by (simp add: scanstring.simps)
  next
    case (Cons c cs)
    show ?thesis
    proof (cases "c = ch (CHR 0x22)")
      case True
      with Cons "1.prems" show ?thesis by (simp add: scanstring.simps)
    next
      case False
      with Cons "1.prems" obtain x r1 t1 where
        st: "string_step s = Some (x, r1)" and sc: "scanstring r1 = Some (t1, r)"
        by (subst (asm) scanstring.simps) (auto split: option.splits)
      from "1.IH" [OF Cons False st refl sc] string_step_shorter [OF st]
      show ?thesis by simp
    qed
  qed
qed

lemma match_number_shorter:
  assumes "match_number P s = Good v r"
  shows "length r < length s"
proof -
  define s1 where "s1 = (if s \<noteq> [] \<and> hd s = ch CHR ''-'' then tl s else s)"
  have l1: "length s1 \<le> length s" by (simp add: s1_def)
  from assms obtain d r0 where s1: "s1 = d # r0" and dg: "is_digit d"
    unfolding match_number_def Let_def s1_def [symmetric]
    by (cases s1) (auto split: if_splits)
  from assms s1 dg have "length r < length s1"
    unfolding match_number_def Let_def s1_def [symmetric]
    by (auto split: if_splits option.splits)
  with l1 show ?thesis by simp
qed

lemma float_constant_rest: "float_constant P name r = Good v r' \<Longrightarrow> r' = r"
  by (auto simp: float_constant_def split: option.splits)

lemma take_str_nonempty: "take n s = str (c # cs) \<Longrightarrow> 0 < n \<and> s \<noteq> []"
  by (cases n; cases s) (simp_all add: str_def)

lemma scan_atom_shorter:
  assumes "scan_atom P s = Good v r"
  shows "length r < length s"
  using assms match_number_shorter [of P s v r]
  by (auto simp: scan_atom_def split: if_splits dest!: float_constant_rest take_str_nonempty)


lemma scan_consumes:
  "scan_once P s = Good v r \<Longrightarrow> length r < length s"
  "parse_elems P s acc = Good v r \<Longrightarrow> length r < length s"
  "parse_members P s acc' = Good v r \<Longrightarrow> length r < length s"
proof (induction P s and P s acc and P s acc' arbitrary: v r and v r and v r
    rule: scan_once_parse_elems_parse_members.induct)
  case (1 P)
  then show ?case by simp
next
  case (2 P c cs)
  show ?case
  proof (cases "c = ch (CHR 0x22)")
    case True
    with "2.prems" obtain t where "scanstring cs = Some (t, r)"
      by (auto split: option.splits)
    from scanstring_shorter [OF this] show ?thesis by simp
  next
    case nq: False
    show ?thesis
    proof (cases "c = ch CHR ''{''")
      case True
      with nq "2.prems" obtain d r' where sk: "skip_ws cs = d # r'"
        and r: "(d = ch CHR ''}'' \<and> r = r') \<or> (d \<noteq> ch CHR ''}'' \<and> parse_members P (d # r') [] = Good v r)"
        by (auto split: list.splits if_splits simp del: parse_members.simps)
      from skip_ws_Cons_shorter [OF sk] have l: "length r' < length cs" .
      from r show ?thesis
      proof
        assume "d = ch CHR ''}'' \<and> r = r'"
        with l show ?thesis by simp
      next
        assume a: "d \<noteq> ch CHR ''}'' \<and> parse_members P (d # r') [] = Good v r"
        with "2.IH"(1) [OF nq True sk] have "length r < length (d # r')" by blast
        with l show ?thesis by simp
      qed
    next
      case nb: False
      show ?thesis
      proof (cases "c = ch CHR ''[''")
        case True
        with nq nb "2.prems" obtain d r' where sk: "skip_ws cs = d # r'"
          and r: "(d = ch CHR '']'' \<and> r = r') \<or> (d \<noteq> ch CHR '']'' \<and> parse_elems P (d # r') [] = Good v r)"
          by (auto split: list.splits if_splits simp del: parse_elems.simps)
        from skip_ws_Cons_shorter [OF sk] have l: "length r' < length cs" .
        from r show ?thesis
        proof
          assume "d = ch CHR '']'' \<and> r = r'"
          with l show ?thesis by simp
        next
          assume a: "d \<noteq> ch CHR '']'' \<and> parse_elems P (d # r') [] = Good v r"
          with "2.IH"(2) [OF nq nb True sk] have "length r < length (d # r')" by blast
          with l show ?thesis by simp
        qed
      next
        case False
        with nq nb "2.prems" have "scan_atom P (c # cs) = Good v r" by simp
        from scan_atom_shorter [OF this] show ?thesis .
      qed
    qed
  qed
next
  case (3 P s acc)
  from "3.prems" obtain v1 r1 where so: "scan_once P s = Good v1 r1"
    by (cases "scan_once P s") auto
  from "3.IH"(1) [OF so] have l1: "length r1 < length s" .
  from "3.prems" so l1 obtain d r2 where sk: "skip_ws r1 = d # r2"
    and r: "(d = ch CHR '']'' \<and> r = r2)
       \<or> (d \<noteq> ch CHR '']'' \<and> d = ch CHR '','' \<and> parse_elems P (skip_ws r2) (acc @ [v1]) = Good v r)"
    by (subst (asm) parse_elems.simps) (auto split: list.splits if_splits)
  from skip_ws_Cons_shorter [OF sk] have l2: "length r2 < length r1" .
  from r show ?case
  proof
    assume "d = ch CHR '']'' \<and> r = r2"
    with l1 l2 show ?thesis by simp
  next
    assume a: "d \<noteq> ch CHR '']'' \<and> d = ch CHR '','' \<and> parse_elems P (skip_ws r2) (acc @ [v1]) = Good v r"
    with "3.IH"(2) [OF so l1 sk] have "length r < length (skip_ws r2)" by blast
    with length_skip_ws [of r2] l1 l2 show ?thesis by simp
  qed
next
  case (4 P s acc)
  note p = "4.prems" [unfolded parse_members.simps [of P s acc]]
  from p obtain q s1 where s: "s = q # s1" by (cases s) simp_all
  from p s have q: "q = ch (CHR 0x22)"
    by (cases "q = ch (CHR 0x22)") (simp_all del: parse_members.simps)
  from p s q obtain key r0 where ss: "scanstring s1 = Some (key, r0)"
    by (cases "scanstring s1") (auto simp del: parse_members.simps)
  from scanstring_shorter [OF ss] have l0: "length r0 < length s1" .
  from p s q ss l0 obtain d r1 where sk1: "skip_ws r0 = d # r1"
    by (cases "skip_ws r0") (simp_all del: parse_members.simps)
  from p s q ss l0 sk1 have d: "d = ch CHR '':''"
    by (cases "d = ch CHR '':''") (simp_all del: parse_members.simps)
  from p s q ss l0 sk1 d obtain v3 r3 where so: "scan_once P (skip_ws r1) = Good v3 r3"
    by (cases "scan_once P (skip_ws r1)") (simp_all del: parse_members.simps)
  from q have q': "\<not> q \<noteq> ch (CHR 0x22)" by simp
  from l0 have l0': "\<not> \<not> length r0 < length s1" by simp
  from d have d': "\<not> d \<noteq> ch CHR '':''" by simp
  from "4.IH"(1) [OF s q' ss refl l0' sk1 d' so]
  have l3: "length r3 < length (skip_ws r1)" .
  from p s q ss l0 sk1 d so l3 obtain e r4 where sk3: "skip_ws r3 = e # r4"
    by (cases "skip_ws r3") (simp_all del: parse_members.simps)
  from p s q ss l0 sk1 d so l3 sk3
  have r: "(e = ch CHR ''}'' \<and> r = r4)
       \<or> (e \<noteq> ch CHR ''}'' \<and> e = ch CHR '','' \<and>
           parse_members P (skip_ws r4) (obj_set key v3 acc) = Good v r)"
    by (cases "e = ch CHR ''}''"; cases "e = ch CHR '',''")
       (simp_all del: parse_members.simps)
  from skip_ws_Cons_shorter [OF sk1] have l1: "length r1 < length r0" .
  from skip_ws_Cons_shorter [OF sk3] have l4: "length r4 < length r3" .
  from l0 l1 l3 l4 length_skip_ws [of r1] s have l: "length r4 < length s" by simp
  from r show ?case
  proof
    assume "e = ch CHR ''}'' \<and> r = r4"
    with l show ?thesis by simp
  next
    assume a: "e \<noteq> ch CHR ''}'' \<and> e = ch CHR '','' \<and>
           parse_members P (skip_ws r4) (obj_set key v3 acc) = Good v r"
    with "4.IH"(2) [OF s q' ss refl l0' sk1 d' so l3 sk3]
    have "length r < length (skip_ws r4)" by blast
    with length_skip_ws [of r4] l show ?thesis by simp
  qed
qed


text \<open>
  The length tests in \<open>parse_elems\<close> and \<open>parse_members\<close> only make the recursion
  visibly well-founded: they always hold, and the functions satisfy the equations of the
  source's loops without them.
\<close>

lemma parse_elems_loop:
  "parse_elems P s acc =
     (case scan_once P s of
        Good v r \<Rightarrow>
          (case skip_ws r of
             [] \<Rightarrow> Bad
           | d # r2 \<Rightarrow>
               if d = ch CHR '']'' then Good (JArr (acc @ [v])) r2
               else if d = ch CHR '','' then parse_elems P (skip_ws r2) (acc @ [v])
               else Bad)
      | Bad \<Rightarrow> Bad
      | Raise e \<Rightarrow> Raise e)"
proof (cases "scan_once P s")
  case (Good v r)
  from scan_consumes(1) [OF this] Good show ?thesis
    by (subst parse_elems.simps) simp
qed (simp_all)

lemma parse_members_loop:
  "parse_members P s acc =
     (case s of
        [] \<Rightarrow> Bad
      | q # s1 \<Rightarrow>
          if q \<noteq> ch (CHR 0x22) then Bad
          else
            (case scanstring s1 of
               None \<Rightarrow> Bad
             | Some (key, r) \<Rightarrow>
                 (case skip_ws r of
                    [] \<Rightarrow> Bad
                  | d # r1 \<Rightarrow>
                      if d \<noteq> ch CHR '':'' then Bad
                      else
                        (case scan_once P (skip_ws r1) of
                           Good v r3 \<Rightarrow>
                             (case skip_ws r3 of
                                [] \<Rightarrow> Bad
                              | e # r4 \<Rightarrow>
                                  if e = ch CHR ''}'' then Good (JObj (obj_set key v acc)) r4
                                  else if e = ch CHR '','' then
                                    parse_members P (skip_ws r4) (obj_set key v acc)
                                  else Bad)
                         | Bad \<Rightarrow> Bad
                         | Raise x \<Rightarrow> Raise x))))"
  by (subst parse_members.simps)
     (simp add: scanstring_shorter scan_consumes(1)
        split: list.split option.split scan.split del: parse_members.simps)

section \<open>The decode entry point\<close>

definition decode_tree :: "'f platform \<Rightarrow> 'f json \<Rightarrow> error + 'f decoded" where
  \<comment> \<open>lines 35 and 36: a fresh cache, one walk\<close>
  "decode_tree P data =
     (case decode P data new_cache False of
        Inl e \<Rightarrow> Inl e
      | Inr (v, c) \<Rightarrow> Inr v)"

definition decode_transit :: "'f platform \<Rightarrow> 'f json \<Rightarrow> error + 'f decoded" where
  \<comment> \<open>a \<open>str\<close> is taken for text and parsed; text that is not JSON is returned as it is\<close>
  "decode_transit P data =
     (case data of
        JStr s \<Rightarrow>
          (case json_loads P s of
             Inl e \<Rightarrow> Inl e
           | Inr None \<Rightarrow> Inr (DStr s)
           | Inr (Some j) \<Rightarrow> decode_tree P j)
      | _ \<Rightarrow> decode_tree P data)"

section \<open>A platform for the examples\<close>

text \<open>
  The examples below are evaluated on one small platform: a float is a decimal
  \<open>m / 10 ^ k\<close> kept exactly (no rounding to binary64, no exponent notation, no
  \<open>inf\<close> or \<open>nan\<close>), no instant converts (as where the C library refuses every epoch,
  an \<open>OSError\<close> the decoder catches), no code point beyond ASCII is a space or a digit,
  and the digit limit is Python's default.
\<close>

definition example_float :: "ustr \<Rightarrow> (int \<times> nat) option" where
  "example_float s =
     (let neg = (s \<noteq> [] \<and> hd s = ch CHR ''-'');
          body = (if neg then tl s else s);
          ip = takeWhile is_digit body;
          r = drop (length ip) body;
          fp = (if r \<noteq> [] \<and> hd r = ch CHR ''.'' then tl r else [])
      in if ip = [] \<or> (r \<noteq> [] \<and> (hd r \<noteq> ch CHR ''.'' \<or> fp = [] \<or> \<not> list_all is_digit fp)) then None
         else Some ((if neg then - 1 else 1) * int (decimal_value (ip @ fp)), length fp))"

definition example_platform :: "(int \<times> nat) platform" where
  "example_platform =
     \<lparr>py_float = example_float,
      float_eq = (\<lambda>(m, k) (n, l). m * 10 ^ l = n * 10 ^ k),
      float_eq_int = (\<lambda>(m, k) n. m = n * 10 ^ k),
      utc_iso = (\<lambda>n. Inr None),
      py_str = (\<lambda>j. []),
      unicode_space = (\<lambda>c. False),
      unicode_decimal = (\<lambda>c. None),
      int_max_str_digits = 4300\<rparr>"

section \<open>Facts about the model\<close>

lemmas eval_defs =
  decode_transit_def decode_tree_def decode_str_def is_cache_ref_def cache_def resolve_def
  ALWAYS_CACHEABLE_TAGS_def new_cache_def ref_for_def chr_def CACHE_BASE_def
  CACHE_BASE_CHAR_def parse_tagged_def tag_header_def startswith_def dict_set_def Let_def
  str_def

lemma startswith_tag:
  "startswith h (str ''~#'') \<longleftrightarrow> 2 \<le> length h \<and> h ! 0 = 126 \<and> h ! 1 = 35"
  apply (cases h; simp add: startswith_def str_def)
  subgoal for a t by (cases t; auto)
  done

lemma parse_tagged_tag: "startswith h (str ''~#'') \<Longrightarrow> parse_tagged P h = Inr (DStr h)"
  by (simp add: startswith_tag parse_tagged_def Let_def)

lemma not_ref_tag: "startswith h (str ''~#'') \<Longrightarrow> \<not> is_cache_ref h"
  by (simp add: startswith_tag is_cache_ref_def)

lemma ref_not_tag: "is_cache_ref r \<Longrightarrow> \<not> startswith r (str ''~#'')"
  by (simp add: startswith_tag is_cache_ref_def)

lemma cache_tag:
  "startswith h (str ''~#'') \<Longrightarrow> 4 \<le> length h \<Longrightarrow>
   cache h k c = (case ref_for (cache_idx c) of Inl e \<Rightarrow> Inl e
     | Inr r \<Rightarrow> Inr \<lparr>cache_map = (cache_map c)(r \<mapsto> h), cache_idx = cache_idx c + 1\<rparr>)"
  by (simp add: startswith_tag cache_def ALWAYS_CACHEABLE_TAGS_def)

lemma cache_short: "length s < 4 \<Longrightarrow> cache s k c = Inr c"
  by (simp add: cache_def)

lemma tag_header_literal:
  "startswith h (str ''~#'') \<Longrightarrow>
   tag_header (JStr h) c = (case cache h False c of Inl e \<Rightarrow> Inl e | Inr c1 \<Rightarrow> Inr (Some h, c1))"
  by (simp add: tag_header_def)

subsection \<open>Reference codes are distinct\<close>

lemma ref_for_eq:
  "ref_for idx =
     (if idx < 44 then Inr [94, 48 + idx]
      else if idx div 44 \<le> 1114063 then Inr [94, 48 + idx div 44, 48 + idx mod 44]
      else Inl ValueError)"
proof -
  have "idx mod 44 \<le> 1114063"
    using mod_less_divisor [of 44 idx] by linarith
  then show ?thesis
    by (simp add: ref_for_def chr_def CACHE_BASE_def CACHE_BASE_CHAR_def Let_def)
qed

lemma div_mod_eq_imp: "(i::nat) div n = j div n \<Longrightarrow> i mod n = j mod n \<Longrightarrow> i = j"
  by (metis div_mult_mod_eq)

lemma ref_for_inj:
  assumes "ref_for i = Inr r" and "ref_for j = Inr r"
  shows "i = j"
proof (cases "i < 44")
  case i: True
  show ?thesis
  proof (cases "j < 44")
    case True
    with i assms show ?thesis by (auto simp: ref_for_eq)
  next
    case False
    with i assms show ?thesis by (auto simp: ref_for_eq split: if_splits)
  qed
next
  case i: False
  show ?thesis
  proof (cases "j < 44")
    case True
    with i assms show ?thesis by (auto simp: ref_for_eq split: if_splits)
  next
    case False
    with i assms have "i div 44 = j div 44 \<and> i mod 44 = j mod 44"
      by (auto simp: ref_for_eq split: if_splits)
    then show ?thesis using div_mod_eq_imp by blast
  qed
qed

subsection \<open>The cache only grows\<close>

text \<open>
  \<open>cache_ok\<close>: the table holds exactly the reference codes of the indices below the
  counter. \<open>grows c c'\<close>: from such a cache, \<open>c'\<close> is again such a cache, its counter is
  not smaller, and every entry of \<open>c\<close> is still in \<open>c'\<close> with the same value.
\<close>

definition cache_ok :: "cache \<Rightarrow> bool" where
  "cache_ok c = (\<forall>r. r \<in> dom (cache_map c) \<longleftrightarrow> (\<exists>i<cache_idx c. ref_for i = Inr r))"

definition grows :: "cache \<Rightarrow> cache \<Rightarrow> bool" where
  "grows c c' = (cache_ok c \<longrightarrow>
     cache_ok c' \<and> cache_idx c \<le> cache_idx c' \<and> cache_map c \<subseteq>\<^sub>m cache_map c')"

lemma grows_refl: "grows c c"
  by (simp add: grows_def)

lemma grows_trans: "grows a b \<Longrightarrow> grows b c \<Longrightarrow> grows a c"
  unfolding grows_def using map_le_trans le_trans by blast

lemma cache_cases:
  "cache s k c = Inr c' \<Longrightarrow>
   c' = c \<or> (\<exists>r. ref_for (cache_idx c) = Inr r
       \<and> c' = \<lparr>cache_map = (cache_map c)(r \<mapsto> s), cache_idx = cache_idx c + 1\<rparr>)"
  by (simp add: cache_def split: if_splits sum.splits)

lemma cache_ok_fresh:
  assumes "cache_ok c" and "ref_for (cache_idx c) = Inr r"
  shows "r \<notin> dom (cache_map c)"
proof
  assume "r \<in> dom (cache_map c)"
  with assms(1) obtain i where "i < cache_idx c" "ref_for i = Inr r"
    unfolding cache_ok_def by blast
  with assms(2) ref_for_inj show False by blast
qed

lemma register_ok:
  assumes "cache_ok c" and "ref_for (cache_idx c) = Inr r"
  shows "cache_ok \<lparr>cache_map = (cache_map c)(r \<mapsto> s), cache_idx = cache_idx c + 1\<rparr>"
  unfolding cache_ok_def
proof (intro allI iffI)
  fix q
  assume "q \<in> dom (cache_map \<lparr>cache_map = (cache_map c)(r \<mapsto> s), cache_idx = cache_idx c + 1\<rparr>)"
  then have "q = r \<or> q \<in> dom (cache_map c)" by auto
  then show "\<exists>i<cache_idx \<lparr>cache_map = (cache_map c)(r \<mapsto> s), cache_idx = cache_idx c + 1\<rparr>.
      ref_for i = Inr q"
  proof
    assume "q = r"
    with assms(2) show ?thesis by auto
  next
    assume "q \<in> dom (cache_map c)"
    with assms(1) obtain i where "i < cache_idx c" "ref_for i = Inr q"
      unfolding cache_ok_def by blast
    then show ?thesis by (auto intro: exI [of _ i])
  qed
next
  fix q
  assume "\<exists>i<cache_idx \<lparr>cache_map = (cache_map c)(r \<mapsto> s), cache_idx = cache_idx c + 1\<rparr>.
      ref_for i = Inr q"
  then obtain i where i: "i < cache_idx c + 1" "ref_for i = Inr q" by auto
  show "q \<in> dom (cache_map \<lparr>cache_map = (cache_map c)(r \<mapsto> s), cache_idx = cache_idx c + 1\<rparr>)"
  proof (cases "i = cache_idx c")
    case True
    with i assms(2) show ?thesis by simp
  next
    case False
    with i have "i < cache_idx c" by simp
    with i(2) assms(1) have "q \<in> dom (cache_map c)" unfolding cache_ok_def by blast
    then show ?thesis by auto
  qed
qed

lemma register_grows:
  assumes "ref_for (cache_idx c) = Inr r"
  shows "grows c \<lparr>cache_map = (cache_map c)(r \<mapsto> s), cache_idx = cache_idx c + 1\<rparr>"
  unfolding grows_def
proof (intro impI conjI)
  assume ok: "cache_ok c"
  show "cache_ok \<lparr>cache_map = (cache_map c)(r \<mapsto> s), cache_idx = cache_idx c + 1\<rparr>"
    using register_ok [OF ok assms] .
  show "cache_idx c \<le> cache_idx \<lparr>cache_map = (cache_map c)(r \<mapsto> s), cache_idx = cache_idx c + 1\<rparr>"
    by simp
  have "r \<notin> dom (cache_map c)" using cache_ok_fresh [OF ok assms] .
  then show "cache_map c \<subseteq>\<^sub>m cache_map \<lparr>cache_map = (cache_map c)(r \<mapsto> s), cache_idx = cache_idx c + 1\<rparr>"
    by (auto simp: map_le_def)
qed

lemma cache_grows: "cache s k c = Inr c' \<Longrightarrow> grows c c'"
  using cache_cases [of s k c c'] register_grows grows_refl by blast

lemma decode_str_cache:
  "decode_str P s c k = Inr (v, c') \<Longrightarrow> c' = c \<or> cache s k c = Inr c'"
  by (simp add: decode_str_def split: if_splits option.splits sum.splits)

lemma decode_str_grows: "decode_str P s c k = Inr (v, c') \<Longrightarrow> grows c c'"
  using decode_str_cache cache_grows grows_refl by blast

lemma tag_header_cache:
  "tag_header first c = Inr (ts, c') \<Longrightarrow> c' = c \<or> (\<exists>h. first = JStr h \<and> cache h False c = Inr c')"
  by (simp add: tag_header_def split: json.splits if_splits option.splits sum.splits)

lemma tag_header_grows: "tag_header first c = Inr (ts, c') \<Longrightarrow> grows c c'"
  using tag_header_cache cache_grows grows_refl by blast

subsection \<open>The branches of the tag dispatch\<close>

lemma tag_neq:
  "str ''cmap'' \<noteq> str ''set''" "str ''cmap'' \<noteq> str ''list''"
  "str ''cmap'' \<noteq> str ''ordered-set''" "str ''cmap'' \<noteq> str ''uri''"
  "str ''ordered-set'' \<noteq> str ''set''" "str ''ordered-set'' \<noteq> str ''list''"
  "str ''ordered-set'' \<noteq> str ''cmap''" "str ''ordered-set'' \<noteq> str ''uri''"
  "str ''set'' \<noteq> str ''uri''" "str ''list'' \<noteq> str ''uri''" "str ''set'' \<noteq> str ''list''"
  by (simp_all add: str_def)

definition seq_tag :: "ustr \<Rightarrow> bool" where
  "seq_tag tag = (tag = str ''set'' \<or> tag = str ''list'' \<or> tag = str ''ordered-set'')"


lemma dtv_cmap:
  "decode_tagged_verbose P (str ''cmap'') (JArr items) c = decode_pairs P items [] c"
  using tag_neq by simp


lemma dl_plain:
  assumes "first \<noteq> JStr (str ''^ '')" and "tag_header first c = Inr (ts, c1)"
    and "ts = None \<or> others = []"
  shows "decode_list P (first # others) c
    = (case decode_each P (first # others) c1 of
         Inl e \<Rightarrow> Inl e
       | Inr (vs, c2) \<Rightarrow> Inr (DList vs, c2))"
  using assms by (auto simp del: decode_each.simps)

lemma dl_seq:
  assumes "first \<noteq> JStr (str ''^ '')" and "tag_header first c = Inr (Some t, c1)"
    and "seq_tag (drop 2 t)"
  shows "decode_list P (first # payload # rest) c = decode_elems P payload c1"
  using assms tag_neq unfolding seq_tag_def
  by (auto simp del: decode_elems.simps simp: Let_def)

lemma dl_cmap:
  assumes "first \<noteq> JStr (str ''^ '')" and "tag_header first c = Inr (Some t, c1)"
    and "drop 2 t = str ''cmap''"
  shows "decode_list P (first # JArr items # rest) c = decode_pairs P items [] c1"
  using assms tag_neq by (simp add: Let_def)

lemma dl_generic:
  assumes "first \<noteq> JStr (str ''^ '')" and "tag_header first c = Inr (Some t, c1)"
    and "\<not> seq_tag (drop 2 t)"
    and "\<not> (drop 2 t = str ''cmap'' \<and> isinstance_list payload)"
  shows "decode_list P (first # payload # rest) c = decode P payload c1 False"
  using assms by (auto simp: seq_tag_def Let_def)

lemma decode_grows:
  "decode P j c k = Inr (v, c') \<Longrightarrow> grows c c'"
  "decode_list P l c = Inr (v, c') \<Longrightarrow> grows c c'"
  "decode_tagged_verbose P tag payload c = Inr (v, c') \<Longrightarrow> grows c c'"
  "decode_elems P payload c = Inr (v, c') \<Longrightarrow> grows c c'"
  "decode_each P es c = Inr (vs, c') \<Longrightarrow> grows c c'"
  "decode_pairs P items out c = Inr (v, c') \<Longrightarrow> grows c c'"
  "decode_items P kvs out c = Inr (v, c') \<Longrightarrow> grows c c'"
proof (induction P j c k and P l c and P tag payload c and P payload c and P es c
    and P items out c and P kvs out c
    arbitrary: v c' and v c' and v c' and v c' and vs c' and v c' and v c'
    rule: decode_decode_list_decode_tagged_verbose_decode_elems_decode_each_decode_pairs_decode_items.induct)
  case (1 P s c as_key)
  then show ?case by (auto dest: decode_str_grows)
next
  case (2 P lst c as_key)
  then show ?case by auto
next
  case (3 P kvs c as_key v c')
  show ?case
  proof (cases "length kvs = 1 \<and> startswith (fst (hd kvs)) (str ''~#'')")
    case True
    with "3.prems" obtain c1 where
      c1: "cache (fst (hd kvs)) False c = Inr c1" and
      r: "decode_tagged_verbose P (drop 2 (fst (hd kvs))) (snd (hd kvs)) c1 = Inr (v, c')"
      by (auto split: sum.splits simp del: decode_tagged_verbose.simps)
    have "grows c c1" using c1 by (rule cache_grows)
    moreover have "grows c1 c'" using "3.IH"(1) True c1 r by blast
    ultimately show ?thesis by (rule grows_trans)
  next
    case False
    with "3.prems" have "decode_items P kvs [] c = Inr (v, c')" by auto
    with "3.IH"(2) False show ?thesis by blast
  qed
next
  case (4 P c as_key)
  then show ?case by (auto simp: grows_refl)
next
  case (5 P b c as_key)
  then show ?case by (auto simp: grows_refl)
next
  case (6 P n c as_key)
  then show ?case by (auto simp: grows_refl)
next
  case (7 P x c as_key)
  then show ?case by (auto simp: grows_refl)
next
  case (8 P c)
  then show ?case by (auto simp: grows_refl)
next
  case (9 P first others c v c')
  note prem = "9.prems"
  show ?case
  proof (cases "first = JStr (str ''^ '')")
    case True
    with prem have "decode_pairs P others [] c = Inr (v, c')" by simp
    with True "9.IH"(1) show ?thesis by blast
  next
    case False
    with prem obtain ts c1 where th: "tag_header first c = Inr (ts, c1)"
      by (cases "tag_header first c") auto
    then have g1: "grows c c1" by (rule tag_header_grows)
    have g2: "grows c1 c'"
    proof (cases "ts \<noteq> None \<and> others \<noteq> []")
      case plain: False
      with prem dl_plain [OF False th, of others P] obtain vs where
        "decode_each P (first # others) c1 = Inr (vs, c')"
        by (auto split: sum.splits prod.splits simp del: decode_list.simps decode_each.simps)
      with "9.IH"(7) False th plain show ?thesis by blast
    next
      case tagged: True
      then obtain t payload rest where ts: "ts = Some t" and ot: "others = payload # rest"
        by (cases ts; cases others) auto
      note th' = th [unfolded ts]
      show ?thesis
      proof (cases "seq_tag (drop 2 t)")
        case True
        with prem dl_seq [OF False th' True, of P payload rest] ot
        have e: "decode_elems P payload c1 = Inr (v, c')" by simp
        from True consider "drop 2 t = str ''set''" | "drop 2 t = str ''list''"
          | "drop 2 t = str ''ordered-set''"
          unfolding seq_tag_def by blast
        then show ?thesis
        proof cases
          case 1
          with "9.IH"(2) [OF False th] ts ot e show ?thesis by simp
        next
          case 2
          with "9.IH"(3) [OF False th] ts ot e tag_neq show ?thesis by simp
        next
          case 3
          with "9.IH"(5) [OF False th] ts ot e tag_neq show ?thesis by simp
        qed
      next
        case ns: False
        show ?thesis
        proof (cases "drop 2 t = str ''cmap'' \<and> isinstance_list payload")
          case True
          then obtain items where p: "payload = JArr items"
            by (cases payload) auto
          from prem dl_cmap [OF False th', of P items rest] True ot p
          have e: "decode_pairs P items [] c1 = Inr (v, c')" by simp
          with "9.IH"(4) [OF False th] ts ot p True tag_neq show ?thesis by simp
        next
          case ng: False
          from prem dl_generic [OF False th' ns ng, of P rest] ot
          have e: "decode P payload c1 False = Inr (v, c')" by simp
          with "9.IH"(6) [OF False th] ts ot ns ng show ?thesis
            by (simp add: seq_tag_def)
        qed
      qed
    qed
    with g1 show ?thesis by (rule grows_trans)
  qed
next
  case (10 P tag payload c v c')
  show ?case
  proof (cases "tag = str ''uri''")
    case True
    with "10.prems" have "c' = c" by (auto split: json.splits)
    then show ?thesis by (simp add: grows_refl)
  next
    case False
    with "10.prems" "10.IH" show ?thesis
      by (auto split: if_splits
          simp del: decode_elems.simps decode.simps decode_pairs.simps)
  qed
next
  case (11 P payload c v c')
  show ?case
  proof (cases "isinstance_list payload")
    case True
    with "11.prems" obtain vs where "decode_each P (list_items payload) c = Inr (vs, c')"
      by (auto split: sum.splits prod.splits)
    with "11.IH"(1) True show ?thesis by blast
  next
    case False
    with "11.prems" obtain w where "decode P payload c False = Inr (w, c')"
      by (auto split: sum.splits prod.splits)
    with "11.IH"(2) False show ?thesis by blast
  qed
next
  case (12 P c)
  then show ?case by (auto simp: grows_refl)
next
  case (13 P e es c vs c')
  show ?case
  proof -
    from "13.prems" obtain w c1 ws where
      e: "decode P e c False = Inr (w, c1)" and
      r: "decode_each P es c1 = Inr (ws, c')"
      by (auto split: sum.splits prod.splits)
    have g1: "grows c c1" using "13.IH"(1) e by blast
    have g2: "grows c1 c'" using "13.IH"(2) e r by blast
    from g1 g2 show ?thesis by (rule grows_trans)
  qed
next
  case (14 P k v others out c va c')
  show ?case
  proof -
    from "14.prems" obtain key c1 val c2 out' where
      k: "decode P k c True = Inr (key, c1)" and
      v: "decode P v c1 False = Inr (val, c2)" and
      d: "dict_set P key val out = Inr out'" and
      r: "decode_pairs P others out' c2 = Inr (va, c')"
      by (auto split: sum.splits prod.splits)
    have g1: "grows c c1" using "14.IH"(1) k by blast
    have g2: "grows c1 c2" using "14.IH"(2) k v by blast
    have g3: "grows c2 c'" using "14.IH"(3) k v d r by blast
    from g1 g2 g3 show ?thesis using grows_trans by blast
  qed
next
  case (15 P k out c)
  then show ?case by (auto simp: grows_refl)
next
  case (16 P out c)
  then show ?case by (auto simp: grows_refl)
next
  case (17 P out c)
  then show ?case by (auto simp: grows_refl)
next
  case (18 P k v kvs out c va c')
  show ?case
  proof -
    from "18.prems" obtain key c1 val c2 out' where
      k: "decode_str P k c True = Inr (key, c1)" and
      v: "decode P v c1 False = Inr (val, c2)" and
      d: "dict_set P key val out = Inr out'" and
      r: "decode_items P kvs out' c2 = Inr (va, c')"
      by (auto split: sum.splits prod.splits)
    have g1: "grows c c1" using k by (rule decode_str_grows)
    have g2: "grows c1 c2" using "18.IH"(1) k v by blast
    have g3: "grows c2 c'" using "18.IH"(2) k v d r by blast
    from g1 g2 g3 show ?thesis using grows_trans by blast
  qed
qed

section \<open>The reference code of an index\<close>

text \<open>
  Claim C6. The reference code of an index is \<open>'^' + chr(48 + index)\<close> below 44 and
  \<open>'^' + chr(48 + index div 44) + chr(48 + index mod 44)\<close> from 44 on: index 0 gives
  \<open>^0\<close>, index 43 the 44th one-character code \<open>^[\<close>, index 44 the first two-character
  code \<open>^10\<close>. Python's \<open>chr\<close> is defined up to the code point \<open>0x10FFFF\<close>, so the code
  exists up to index 49018815 and \<open>chr\<close> raises \<open>ValueError\<close> beyond.
\<close>

theorem ref_for_code:
  "ref_for idx =
     (if idx < 44 then Inr [ch CHR ''^'', 48 + idx]
      else if idx div 44 \<le> 1114063 then Inr [ch CHR ''^'', 48 + idx div 44, 48 + idx mod 44]
      else Inl ValueError)
   \<and> ref_for 0 = Inr (str ''^0'')
   \<and> ref_for 43 = Inr (str ''^['')
   \<and> ref_for 44 = Inr (str ''^10'')"
proof -
  have "idx mod 44 \<le> 1114063"
    using mod_less_divisor [of 44 idx] by linarith
  then show ?thesis
    by (simp add: ref_for_def chr_def CACHE_BASE_def CACHE_BASE_CHAR_def Let_def str_def)
qed

section \<open>Strings too short to be cached\<close>




section \<open>The unpaired last element of a map\<close>

lemma decode_pairs_snoc:
  "even (length items) \<Longrightarrow> decode_pairs P (items @ [x]) out c = decode_pairs P items out c"
proof (induction items arbitrary: out c rule: induct_list012)
  case 1
  then show ?case by simp
next
  case (2 a)
  then show ?case by simp
next
  case (3 a b zs)
  then show ?case by (simp split: sum.splits prod.splits)
qed

lemma cmap_snoc_general:
  assumes "even (length items)" and "first \<noteq> JStr (str ''^ '')"
    and "\<And>ts c1. tag_header first c = Inr (ts, c1) \<Longrightarrow> \<exists>t. ts = Some t \<and> drop 2 t = str ''cmap''"
  shows "decode_list P (first # JArr (items @ [x]) # others) c
           = decode_list P (first # JArr items # others) c"
proof (cases "tag_header first c")
  case (Inl e)
  then show ?thesis using assms(2) by simp
next
  case (Inr p)
  obtain ts c1 where p: "p = (ts, c1)" by (cases p)
  with Inr assms(3) obtain t where t: "ts = Some t" "drop 2 t = str ''cmap''" by blast
  have ne: "str ''cmap'' \<noteq> str ''set''" "str ''cmap'' \<noteq> str ''list''"
    by (simp_all add: str_def)
  show ?thesis using Inr p t assms(1,2) ne
    by (simp add: decode_pairs_snoc)
qed

text \<open>
  Claim C9. When an odd number of elements follows the sentinel \<open>^ \<close>, or a cmap payload
  has odd length, the last element \<open>x\<close> is dropped: the value and the cache are those of
  the same input without \<open>x\<close>, whatever \<open>x\<close> is, so \<open>x\<close> is neither decoded nor cached.
  This holds for the compact map, for the compact cmap whose tag is a literal or a
  reference, and for the verbose cmap.
\<close>

theorem odd_trailing_dropped:
  assumes "even (length items)"
  shows "decode_list P (JStr (str ''^ '') # items @ [x]) c
           = decode_list P (JStr (str ''^ '') # items) c
    \<and> decode_list P (JStr (str ''~#cmap'') # JArr (items @ [x]) # others) c
           = decode_list P (JStr (str ''~#cmap'') # JArr items # others) c
    \<and> (\<forall>r. r \<noteq> str ''^ '' \<and> is_cache_ref r \<and> resolve c r = Some (str ''~#cmap'') \<longrightarrow>
          decode_list P (JStr r # JArr (items @ [x]) # others) c
            = decode_list P (JStr r # JArr items # others) c)
    \<and> decode_tagged_verbose P (str ''cmap'') (JArr (items @ [x])) c
           = decode_tagged_verbose P (str ''cmap'') (JArr items) c
    \<and> decode P (JObj [(str ''~#cmap'', JArr (items @ [x]))]) c as_key
           = decode P (JObj [(str ''~#cmap'', JArr items)]) c as_key"
proof -
  note L = decode_pairs_snoc [OF assms]
  have ne: "str ''cmap'' \<noteq> str ''set''" "str ''cmap'' \<noteq> str ''list''"
    "str ''cmap'' \<noteq> str ''uri''" "str ''~#cmap'' \<noteq> str ''^ ''"
    by (simp_all add: str_def)
  have tg: "startswith (str ''~#cmap'') (str ''~#'')" "drop 2 (str ''~#cmap'') = str ''cmap''"
    by (simp_all add: startswith_def str_def)
  have a: "decode_list P (JStr (str ''^ '') # items @ [x]) c
           = decode_list P (JStr (str ''^ '') # items) c"
    by (simp add: L)
  have b: "decode_list P (JStr (str ''~#cmap'') # JArr (items @ [x]) # others) c
           = decode_list P (JStr (str ''~#cmap'') # JArr items # others) c"
    by (rule cmap_snoc_general [OF assms])
       (auto simp: ne tg tag_header_literal split: sum.splits)
  have c: "decode_list P (JStr r # JArr (items @ [x]) # others) c
            = decode_list P (JStr r # JArr items # others) c"
    if "r \<noteq> str ''^ ''" "is_cache_ref r" "resolve c r = Some (str ''~#cmap'')" for r
    by (rule cmap_snoc_general [OF assms])
       (use that in \<open>auto simp: tg tag_header_def ref_not_tag\<close>)
  have d: "decode_tagged_verbose P (str ''cmap'') (JArr (items @ [x])) c
           = decode_tagged_verbose P (str ''cmap'') (JArr items) c"
    by (simp add: L ne)
  have e: "decode P (JObj [(str ''~#cmap'', JArr (items @ [x]))]) c as_key
           = decode P (JObj [(str ''~#cmap'', JArr items)]) c as_key"
    by (simp add: L ne tg split: sum.splits)
  show ?thesis using a b c d e by blast
qed

theorem odd_trailing_dropped_witness:
  "even (length [JStr (str ''~:a''), JInt 1 :: (int \<times> nat) json])
   \<and> decode_list example_platform
        [JStr (str ''^ ''), JStr (str ''~:a''), JInt 1, JStr (str ''~:zzzz'')] new_cache
       = Inr (DDict [(DStr (str ''a''), DInt 1)], new_cache)
   \<and> decode_tagged_verbose example_platform (str ''cmap'')
        (JArr [JStr (str ''~:a''), JInt 1, JArr []]) new_cache
       = Inr (DDict [(DStr (str ''a''), DInt 1)], new_cache)"
proof -
  have ev: "even (length [JStr (str ''~:a''), JInt 1 :: (int \<times> nat) json])" by simp
  have k: "decode_str example_platform (str ''~:a'') new_cache True
      = Inr (DStr (str ''a''), new_cache)"
    by (simp add: eval_defs)
  have a: "decode_list example_platform [JStr (str ''^ ''), JStr (str ''~:a''), JInt 1] new_cache
       = Inr (DDict [(DStr (str ''a''), DInt 1)], new_cache)"
    by (simp add: k dict_set_def)
  have ne: "str ''cmap'' \<noteq> str ''set''" "str ''cmap'' \<noteq> str ''list''"
    "str ''cmap'' \<noteq> str ''uri''"
    by (simp_all add: str_def)
  have b: "decode_tagged_verbose example_platform (str ''cmap'')
        (JArr [JStr (str ''~:a''), JInt 1]) new_cache
       = Inr (DDict [(DStr (str ''a''), DInt 1)], new_cache)"
    by (simp add: k dict_set_def ne)
  from odd_trailing_dropped [OF ev, of example_platform "JStr (str ''~:zzzz'')" new_cache]
    odd_trailing_dropped [OF ev, of example_platform "JArr []" new_cache]
    a b show ?thesis by simp
qed

section \<open>Cache slots\<close>

lemma new_cache_ok: "cache_ok new_cache"
  by (simp add: cache_ok_def new_cache_def)

lemma short_tag_generic:
  assumes "startswith h (str ''~#'')" and "length h < 4"
  shows "\<not> seq_tag (drop 2 h)" and "drop 2 h \<noteq> str ''cmap''" and "h \<noteq> str ''^ ''"
proof -
  have "length (drop 2 h) \<le> 1" using assms(2) by simp
  then have ne: "drop 2 h \<noteq> xs" if "1 < length xs" for xs
    using that by auto
  show "\<not> seq_tag (drop 2 h)"
    using ne [of "str ''set''"] ne [of "str ''list''"] ne [of "str ''ordered-set''"]
    by (simp add: seq_tag_def str_def)
  show "drop 2 h \<noteq> str ''cmap''"
    using ne [of "str ''cmap''"] by (simp add: str_def)
  show "h \<noteq> str ''^ ''" using assms(1) by (auto simp: str_def startswith_def)
qed

lemma tag_not_sentinel: "startswith h (str ''~#'') \<Longrightarrow> JStr h \<noteq> JStr (str ''^ '')"
  by (auto simp: startswith_def str_def)

lemma decode_list_after_header:
  assumes "first \<noteq> JStr (str ''^ '')" and "decode_list P (first # others) c = Inr (v, c')"
  shows "\<exists>ts c1. tag_header first c = Inr (ts, c1) \<and> grows c1 c'"
proof -
  from assms obtain ts c1 where th: "tag_header first c = Inr (ts, c1)"
    by (cases "tag_header first c") auto
  have "grows c1 c'"
  proof (cases "ts \<noteq> None \<and> others \<noteq> []")
    case False
    with assms(2) dl_plain [OF assms(1) th, of others P] obtain vs where
      "decode_each P (first # others) c1 = Inr (vs, c')"
      by (auto split: sum.splits prod.splits simp del: decode_list.simps decode_each.simps)
    then show ?thesis by (rule decode_grows(5))
  next
    case True
    then obtain t payload rest where ts: "ts = Some t" and ot: "others = payload # rest"
      by (cases ts; cases others) auto
    note th' = th [unfolded ts]
    show ?thesis
    proof (cases "seq_tag (drop 2 t)")
      case True
      with assms(2) dl_seq [OF assms(1) th' True, of P payload rest] ot
      have "decode_elems P payload c1 = Inr (v, c')" by simp
      then show ?thesis by (rule decode_grows(4))
    next
      case ns: False
      show ?thesis
      proof (cases "drop 2 t = str ''cmap'' \<and> isinstance_list payload")
        case True
        then obtain items where p: "payload = JArr items"
          by (cases payload) auto
        from assms(2) dl_cmap [OF assms(1) th', of P items rest] True ot p
        have "decode_pairs P items [] c1 = Inr (v, c')" by simp
        then show ?thesis by (rule decode_grows(6))
      next
        case ng: False
        from assms(2) dl_generic [OF assms(1) th' ns ng, of P rest] ot
        have "decode P payload c1 False = Inr (v, c')" by simp
        then show ?thesis by (rule decode_grows(1))
      qed
    qed
  qed
  with th show ?thesis by blast
qed



section \<open>The head of a tagged array\<close>

text \<open>
  Claim C4, as the code has it. The head of an array, a literal beginning \<open>~#\<close>, is
  registered when it has at least four characters: it takes the slot of the index the
  counter stood at, and the slot is still there when the array is decoded. A shorter head
  (\<open>~#a\<close>) is not registered: \<open>cache\<close> returns the cache unchanged, and an array
  \<open>[head, payload, ...]\<close> decodes as its payload does from the very same cache.
\<close>

theorem tag_head_registration:
  assumes "startswith h (str ''~#'')"
  shows "(4 \<le> length h \<and> cache_ok c \<longrightarrow>
            (\<forall>v c'. decode_list (P :: 'f platform) (JStr h # others) c = Inr (v, c') \<longrightarrow>
               (\<exists>r. ref_for (cache_idx c) = Inr r \<and> r \<notin> dom (cache_map c)
                  \<and> cache_map c' r = Some h \<and> cache_idx c < cache_idx c')))
    \<and> (length h < 4 \<longrightarrow>
            cache h False c = Inr c
          \<and> decode_list P (JStr h # payload # rest) c = decode P payload c False)"
proof (intro conjI impI allI)
  fix v c'
  assume a: "4 \<le> length h \<and> cache_ok c" and d: "decode_list P (JStr h # others) c = Inr (v, c')"
  from decode_list_after_header [OF tag_not_sentinel [OF assms] d]
  obtain ts c1 where th: "tag_header (JStr h :: 'f json) c = Inr (ts, c1)" and g: "grows c1 c'"
    by blast
  have thl: "tag_header (JStr h :: 'f json) c
      = (case cache h False c of Inl e \<Rightarrow> Inl e | Inr c1 \<Rightarrow> Inr (Some h, c1))"
    by (rule tag_header_literal [OF assms])
  from th thl cache_tag [OF assms, of False c] a
  obtain r where r: "ref_for (cache_idx c) = Inr r"
    and c1: "c1 = \<lparr>cache_map = (cache_map c)(r \<mapsto> h), cache_idx = cache_idx c + 1\<rparr>"
    by (auto split: sum.splits)
  from a r have fresh: "r \<notin> dom (cache_map c)" using cache_ok_fresh by blast
  from a have ok: "cache_ok c" by simp
  have ok1: "cache_ok c1" unfolding c1 using register_ok [OF ok r] .
  with g have g': "cache_idx c1 \<le> cache_idx c'" "cache_map c1 \<subseteq>\<^sub>m cache_map c'"
    by (simp_all add: grows_def)
  have "cache_map c1 r = Some h" by (simp add: c1)
  with g'(2) have "cache_map c' r = Some h" by (metis domI map_le_def)
  moreover from g'(1) have "cache_idx c < cache_idx c'" by (simp add: c1)
  ultimately show "\<exists>r. ref_for (cache_idx c) = Inr r \<and> r \<notin> dom (cache_map c)
      \<and> cache_map c' r = Some h \<and> cache_idx c < cache_idx c'"
    using r fresh by blast
next
  assume l: "length h < 4"
  show "cache h False c = Inr c" using l by (rule cache_short)
  have th: "tag_header (JStr h :: 'f json) c = Inr (Some h, c)"
    using tag_header_literal [OF assms, of c] cache_short [OF l, of False c] by simp
  show "decode_list P (JStr h # payload # rest) c = decode P payload c False"
    using dl_generic [OF tag_not_sentinel [OF assms] th] short_tag_generic [OF assms l]
    by simp
qed

theorem tag_head_registration_witness:
  "startswith (str ''~#set'') (str ''~#'') \<and> 4 \<le> length (str ''~#set'') \<and> cache_ok new_cache
   \<and> decode_list example_platform [JStr (str ''~#set''), JArr []] new_cache
        = Inr (DList [], \<lparr>cache_map = [str ''^0'' \<mapsto> str ''~#set''], cache_idx = 1\<rparr>)
   \<and> (\<exists>r. ref_for (cache_idx new_cache) = Inr r \<and> r \<notin> dom (cache_map new_cache)
         \<and> cache_map \<lparr>cache_map = [str ''^0'' \<mapsto> str ''~#set''], cache_idx = 1\<rparr> r
             = Some (str ''~#set'')
         \<and> cache_idx new_cache
             < cache_idx \<lparr>cache_map = [str ''^0'' \<mapsto> str ''~#set''], cache_idx = 1\<rparr>)
   \<and> startswith (str ''~#a'') (str ''~#'') \<and> length (str ''~#a'') < 4
   \<and> decode_list example_platform [JStr (str ''~#a''), JStr (str ''~:aaaa'')] new_cache
        = decode example_platform (JStr (str ''~:aaaa'')) new_cache False"
proof -
  have s1: "startswith (str ''~#set'') (str ''~#'')" and l1: "4 \<le> length (str ''~#set'')"
    and s2: "startswith (str ''~#a'') (str ''~#'')" and l2: "length (str ''~#a'') < 4"
    by (simp_all add: startswith_def str_def)
  have ev: "decode_list example_platform [JStr (str ''~#set''), JArr []] new_cache
        = Inr (DList [], \<lparr>cache_map = [str ''^0'' \<mapsto> str ''~#set''], cache_idx = 1\<rparr>)"
    by (simp add: eval_defs)
  from tag_head_registration [OF s1, of new_cache example_platform "[JArr []]"] l1 new_cache_ok ev
  have a: "\<exists>r. ref_for (cache_idx new_cache) = Inr r \<and> r \<notin> dom (cache_map new_cache)
         \<and> cache_map \<lparr>cache_map = [str ''^0'' \<mapsto> str ''~#set''], cache_idx = 1\<rparr> r
             = Some (str ''~#set'')
         \<and> cache_idx new_cache
             < cache_idx \<lparr>cache_map = [str ''^0'' \<mapsto> str ''~#set''], cache_idx = 1\<rparr>"
    by blast
  from tag_head_registration [OF s2, of new_cache example_platform _ "JStr (str ''~:aaaa'')" "[]"] l2
  have b: "decode_list example_platform [JStr (str ''~#a''), JStr (str ''~:aaaa'')] new_cache
        = decode example_platform (JStr (str ''~:aaaa'')) new_cache False"
    by blast
  from s1 l1 new_cache_ok ev a s2 l2 b show ?thesis by blast
qed

text \<open>The claim's own example: after \<open>["~#a", 1]\<close> the cache is as fresh as before.\<close>

theorem short_tag_head_not_registered:
  "decode_list example_platform [JStr (str ''~#a''), JInt 1] new_cache = Inr (DInt 1, new_cache)"
  by (simp add: eval_defs)

section \<open>An array of one tag string\<close>

text \<open>
  Claim C10, as the code has it. An array whose only element is a literal beginning
  \<open>~#\<close> is not a tagged container (that needs two elements): it decodes to the list of
  that one string, unchanged. A string of at least four characters is registered twice,
  once as the head and once as the element, and takes two indices; a shorter one
  (\<open>~#a\<close>) is not registered at all.
\<close>

theorem singleton_tag_array:
  assumes "startswith h (str ''~#'')"
  shows "(length h < 4 \<longrightarrow> decode_list (P :: 'f platform) [JStr h] c = Inr (DList [DStr h], c))
    \<and> (4 \<le> length h \<longrightarrow>
         (\<forall>r1 r2. ref_for (cache_idx c) = Inr r1 \<and> ref_for (cache_idx c + 1) = Inr r2 \<longrightarrow>
            decode_list P [JStr h] c
              = Inr (DList [DStr h],
                  \<lparr>cache_map = (cache_map c)(r1 \<mapsto> h, r2 \<mapsto> h), cache_idx = cache_idx c + 2\<rparr>)))"
proof (intro conjI impI allI)
  assume l: "length h < 4"
  have th: "tag_header (JStr h :: 'f json) c = Inr (Some h, c)"
    using tag_header_literal [OF assms, of c] cache_short [OF l, of False c] by simp
  have ds: "decode_str P h c False = Inr (DStr h, c)"
    using not_ref_tag [OF assms] cache_short [OF l, of False c] parse_tagged_tag [OF assms, of P]
    by (simp add: decode_str_def)
  show "decode_list P [JStr h] c = Inr (DList [DStr h], c)"
    using dl_plain [OF tag_not_sentinel [OF assms] th, of "[]" P] ds by simp
next
  fix r1 r2
  assume l: "4 \<le> length h"
    and r: "ref_for (cache_idx c) = Inr r1 \<and> ref_for (cache_idx c + 1) = Inr r2"
  let ?c1 = "\<lparr>cache_map = (cache_map c)(r1 \<mapsto> h), cache_idx = cache_idx c + 1\<rparr>"
  have th: "tag_header (JStr h :: 'f json) c = Inr (Some h, ?c1)"
    using tag_header_literal [OF assms, of c] cache_tag [OF assms l, of False c] r by simp
  have ds: "decode_str P h ?c1 False
      = Inr (DStr h, \<lparr>cache_map = (cache_map c)(r1 \<mapsto> h, r2 \<mapsto> h), cache_idx = cache_idx c + 2\<rparr>)"
    using not_ref_tag [OF assms] cache_tag [OF assms l, of False ?c1] r
      parse_tagged_tag [OF assms, of P] l
    by (simp add: decode_str_def)
  show "decode_list P [JStr h] c
      = Inr (DList [DStr h],
          \<lparr>cache_map = (cache_map c)(r1 \<mapsto> h, r2 \<mapsto> h), cache_idx = cache_idx c + 2\<rparr>)"
    using dl_plain [OF tag_not_sentinel [OF assms] th, of "[]" P] ds by simp
qed

theorem singleton_tag_array_witness:
  "startswith (str ''~#set'') (str ''~#'') \<and> 4 \<le> length (str ''~#set'')
   \<and> ref_for (cache_idx new_cache) = Inr (str ''^0'')
   \<and> ref_for (cache_idx new_cache + 1) = Inr (str ''^1'')
   \<and> decode_list example_platform [JStr (str ''~#set'')] new_cache
        = Inr (DList [DStr (str ''~#set'')],
            \<lparr>cache_map = (cache_map new_cache)(str ''^0'' \<mapsto> str ''~#set'', str ''^1'' \<mapsto> str ''~#set''),
               cache_idx = cache_idx new_cache + 2\<rparr>)"
proof -
  have s1: "startswith (str ''~#set'') (str ''~#'')" and l1: "4 \<le> length (str ''~#set'')"
    by (simp_all add: startswith_def str_def)
  have r: "ref_for (cache_idx new_cache) = Inr (str ''^0'')"
    "ref_for (cache_idx new_cache + 1) = Inr (str ''^1'')"
    by (simp_all add: eval_defs)
  from singleton_tag_array [OF s1, of example_platform new_cache] l1 r
  have "decode_list example_platform [JStr (str ''~#set'')] new_cache
        = Inr (DList [DStr (str ''~#set'')],
            \<lparr>cache_map = (cache_map new_cache)(str ''^0'' \<mapsto> str ''~#set'', str ''^1'' \<mapsto> str ''~#set''),
               cache_idx = cache_idx new_cache + 2\<rparr>)"
    by blast
  with s1 l1 r show ?thesis by blast
qed

text \<open>The short tag string of claim C4, alone in an array: no index is taken.\<close>

theorem singleton_short_tag_not_registered:
  "decode_list example_platform [JStr (str ''~#a'')] new_cache
     = Inr (DList [DStr (str ''~#a'')], new_cache)"
  by (simp add: eval_defs)

section \<open>The cache example of the specification\<close>

text \<open>
  Claim C2, as the code has it. \<open>["~#set", ["~:aaaa", "~:aaaa"]]\<close> decodes to
  \<open>["aaaa", "aaaa"]\<close>. The first cacheable string of that walk is the tag \<open>~#set\<close>
  itself, which takes \<open>^0\<close>; \<open>~:aaaa\<close> takes \<open>^1\<close> (and \<open>^2\<close> when it comes again as a
  literal). So it is \<open>["~#set", ["~:aaaa", "^1"]]\<close> that decodes to \<open>["aaaa", "aaaa"]\<close>.
\<close>

theorem set_example_slots:
  "decode_transit P
      (JArr [JStr (str ''~#set''), JArr [JStr (str ''~:aaaa''), JStr (str ''~:aaaa'')]])
     = Inr (DList [DStr (str ''aaaa''), DStr (str ''aaaa'')])
   \<and> decode P
      (JArr [JStr (str ''~#set''), JArr [JStr (str ''~:aaaa''), JStr (str ''~:aaaa'')]])
      new_cache False
     = Inr (DList [DStr (str ''aaaa''), DStr (str ''aaaa'')],
         \<lparr>cache_map = [str ''^0'' \<mapsto> str ''~#set'', str ''^1'' \<mapsto> str ''~:aaaa'',
                       str ''^2'' \<mapsto> str ''~:aaaa''], cache_idx = 3\<rparr>)
   \<and> decode_transit P
      (JArr [JStr (str ''~#set''), JArr [JStr (str ''~:aaaa''), JStr (str ''^1'')]])
     = Inr (DList [DStr (str ''aaaa''), DStr (str ''aaaa'')])"
  by (simp add: eval_defs)

text \<open>With \<open>^0\<close> in place of the second occurrence the result is \<open>["aaaa", "~#set"]\<close>.\<close>

theorem set_example_ref0:
  "decode_transit example_platform
      (JArr [JStr (str ''~#set''), JArr [JStr (str ''~:aaaa''), JStr (str ''^0'')]])
     = Inr (DList [DStr (str ''aaaa''), DStr (str ''~#set'')])"
  by (simp add: eval_defs)

section \<open>Scalar round trips\<close>

text \<open>A JSON text that is one string without escapes parses to that string.\<close>

definition plain_char :: "nat \<Rightarrow> bool" where
  "plain_char c = (c \<noteq> 34 \<and> c \<noteq> 92 \<and> 31 < c)"

lemma scanstring_plain:
  "list_all plain_char s \<Longrightarrow> scanstring (s @ 34 # r) = Some (s, r)"
proof (induction s)
  case Nil
  show ?case by (subst scanstring.simps) simp
next
  case (Cons c s)
  then have c: "c \<noteq> 34" "c \<noteq> 92" "31 < c" and s: "scanstring (s @ 34 # r) = Some (s, r)"
    by (simp_all add: plain_char_def)
  have "string_step ((c # s) @ 34 # r) = Some (c, s @ 34 # r)"
    using c by (simp add: string_step_def)
  then show ?case using c s
    by (subst scanstring.simps) simp
qed

lemma json_loads_string:
  assumes "list_all plain_char s"
  shows "json_loads P (34 # s @ [34]) = Inr (Some (JStr s))"
  using scanstring_plain [OF assms, of "[]"]
  by (simp add: json_loads_def skip_ws_def json_space_def)

lemma decode_transit_text_string:
  assumes "list_all plain_char s"
  shows "decode_transit P (JStr (34 # s @ [34])) = decode_tree P (JStr s)"
  using json_loads_string [OF assms, of P] by (simp add: decode_transit_def)

lemma py_int_42: "py_int P (str ''42'') = Some 42"
  by (simp add: py_int_def int_space_def int_digit_def too_many_digits_def str_def Let_def)

text \<open>
  Claim C7, as the code has it. The entry point takes a \<open>str\<close> for JSON text. Applied
  to the JSON text of a tagged scalar (the string in its double quotes), it gives
  \<open>"~:foo"\<close> \<open>\<mapsto>\<close> \<open>foo\<close>, \<open>"~?t"\<close> \<open>\<mapsto>\<close> true, \<open>"~?f"\<close> \<open>\<mapsto>\<close> false, \<open>"~i42"\<close> \<open>\<mapsto>\<close> 42
  and \<open>"~d3.14"\<close> \<open>\<mapsto>\<close> the float that \<open>float("3.14")\<close> is; so does the walk of
  lines 35 and 36 applied to the string node itself.
\<close>

theorem scalar_round_trips:
  "decode_transit P (JStr (str ''\"~:foo\"'')) = Inr (DStr (str ''foo''))
   \<and> decode_transit P (JStr (str ''\"~?t\"'')) = Inr (DBool True)
   \<and> decode_transit P (JStr (str ''\"~?f\"'')) = Inr (DBool False)
   \<and> decode_transit P (JStr (str ''\"~i42\"'')) = Inr (DInt 42)
   \<and> (\<forall>x. py_float P (str ''3.14'') = Some x \<longrightarrow>
         decode_transit P (JStr (str ''\"~d3.14\"'')) = Inr (DFloat x))
   \<and> decode_tree P (JStr (str ''~:foo'')) = Inr (DStr (str ''foo''))
   \<and> decode_tree P (JStr (str ''~?t'')) = Inr (DBool True)
   \<and> decode_tree P (JStr (str ''~?f'')) = Inr (DBool False)
   \<and> decode_tree P (JStr (str ''~i42'')) = Inr (DInt 42)
   \<and> (\<forall>x. py_float P (str ''3.14'') = Some x \<longrightarrow>
         decode_tree P (JStr (str ''~d3.14'')) = Inr (DFloat x))"
proof -
  have q: "str ''\"~:foo\"'' = 34 # str ''~:foo'' @ [34]" "str ''\"~?t\"'' = 34 # str ''~?t'' @ [34]"
    "str ''\"~?f\"'' = 34 # str ''~?f'' @ [34]" "str ''\"~i42\"'' = 34 # str ''~i42'' @ [34]"
    "str ''\"~d3.14\"'' = 34 # str ''~d3.14'' @ [34]"
    by (simp_all add: str_def)
  have p: "list_all plain_char (str ''~:foo'')" "list_all plain_char (str ''~?t'')"
    "list_all plain_char (str ''~?f'')" "list_all plain_char (str ''~i42'')"
    "list_all plain_char (str ''~d3.14'')"
    by (simp_all add: str_def plain_char_def)
  have d42: "drop 2 (str ''~i42'') = str ''42''" and d314: "drop 2 (str ''~d3.14'') = str ''3.14''"
    by (simp_all add: str_def)
  have t1: "decode_tree P (JStr (str ''~:foo'')) = Inr (DStr (str ''foo''))"
    by (simp add: eval_defs)
  have t2: "decode_tree P (JStr (str ''~?t'')) = Inr (DBool True)"
    by (simp add: eval_defs)
  have t3: "decode_tree P (JStr (str ''~?f'')) = Inr (DBool False)"
    by (simp add: eval_defs)
  have t4: "decode_tree P (JStr (str ''~i42'')) = Inr (DInt 42)"
    using py_int_42 [of P] d42
    by (simp add: decode_tree_def decode_str_def is_cache_ref_def cache_def
        ALWAYS_CACHEABLE_TAGS_def new_cache_def parse_tagged_def Let_def)
       (simp add: str_def)
  have t5: "decode_tree P (JStr (str ''~d3.14'')) = Inr (DFloat x)"
    if "py_float P (str ''3.14'') = Some x" for x
    using that d314
    by (simp add: decode_tree_def decode_str_def is_cache_ref_def cache_def
        ALWAYS_CACHEABLE_TAGS_def new_cache_def parse_tagged_def Let_def)
       (simp add: str_def)
  show ?thesis
    unfolding q decode_transit_text_string [OF p(1)] decode_transit_text_string [OF p(2)]
      decode_transit_text_string [OF p(3)] decode_transit_text_string [OF p(4)]
      decode_transit_text_string [OF p(5)]
    using t1 t2 t3 t4 t5 by blast
qed

theorem scalar_round_trips_witness:
  "py_float example_platform (str ''3.14'') = Some (314, 2)
   \<and> decode_transit example_platform (JStr (str ''\"~d3.14\"'')) = Inr (DFloat (314, 2))
   \<and> decode_tree example_platform (JStr (str ''~d3.14'')) = Inr (DFloat (314, 2))"
proof -
  have f: "py_float example_platform (str ''3.14'') = Some (314, 2)"
    by (simp add: example_platform_def example_float_def is_digit_def decimal_value_def str_def
        Let_def)
  with scalar_round_trips [of example_platform] show ?thesis by blast
qed

text \<open>
  Applied to the bare string \<open>~:foo\<close>, the entry point finds no JSON in it and returns
  it as it is.
\<close>

theorem bare_string_is_text:
  "decode_transit example_platform (JStr (str ''~:foo'')) = Inr (DStr (str ''~:foo''))"
  by (simp add: eval_defs json_loads_def skip_ws_def json_space_def scan_atom_def
      match_number_def is_digit_def)

section \<open>The two forms of a map\<close>

text \<open>
  A flat payload: every element is a scalar node, and no string among them has the shape
  of a cache reference.
\<close>

definition flat_scalar :: "'f json \<Rightarrow> bool" where
  "flat_scalar j =
     (case j of JStr s \<Rightarrow> \<not> is_cache_ref s | JArr xs \<Rightarrow> False | JObj kvs \<Rightarrow> False | _ \<Rightarrow> True)"

definition scalar_value :: "'f platform \<Rightarrow> 'f json \<Rightarrow> error + 'f decoded" where
  "scalar_value P j =
     (case j of
        JStr s \<Rightarrow> parse_tagged P s
      | JBool b \<Rightarrow> Inr (DBool b)
      | JInt n \<Rightarrow> Inr (DInt n)
      | JFloat x \<Rightarrow> Inr (DFloat x)
      | _ \<Rightarrow> Inr DNone)"

lemma ref_for_exists: "idx < 49018816 \<Longrightarrow> \<exists>r. ref_for idx = Inr r"
proof -
  assume "idx < 49018816"
  then have "idx div 44 \<le> 1114063" by simp
  then show ?thesis by (simp add: ref_for_eq)
qed

lemma cache_returns:
  assumes "cache_idx c < 49018816"
  shows "\<exists>c'. cache s k c = Inr c' \<and> cache_idx c' \<le> cache_idx c + 1"
proof -
  from ref_for_exists [OF assms] obtain r where "ref_for (cache_idx c) = Inr r" by blast
  then show ?thesis by (simp add: cache_def)
qed

lemma decode_str_nonref:
  "\<not> is_cache_ref s \<Longrightarrow>
   decode_str P s c k =
     (case cache s k c of
        Inl e \<Rightarrow> Inl e
      | Inr c1 \<Rightarrow> (case parse_tagged P s of Inl e \<Rightarrow> Inl e | Inr v \<Rightarrow> Inr (v, c1)))"
  by (auto simp: decode_str_def parse_tagged_def split: sum.splits)

lemma flat_decode:
  assumes "flat_scalar j" and "cache_idx c < 49018816"
  shows "\<exists>c'. cache_idx c' \<le> cache_idx c + 1
    \<and> decode P j c k = (case scalar_value P j of Inl e \<Rightarrow> Inl e | Inr v \<Rightarrow> Inr (v, c'))"
proof (cases j)
  case (JStr s)
  with assms(1) have nr: "\<not> is_cache_ref s" by (simp add: flat_scalar_def)
  from cache_returns [OF assms(2), of s k] obtain c' where
    "cache s k c = Inr c'" "cache_idx c' \<le> cache_idx c + 1" by blast
  then show ?thesis using JStr decode_str_nonref [OF nr, of P c k]
    by (auto simp: scalar_value_def split: sum.splits)
qed (use assms(1) in \<open>auto simp: flat_scalar_def scalar_value_def\<close>)

lemma flat_pairs:
  "list_all flat_scalar items \<Longrightarrow>
   cache_idx c1 + length items \<le> 49018816 \<Longrightarrow> cache_idx c2 + length items \<le> 49018816 \<Longrightarrow>
   map_sum id fst (decode_pairs P items out c1) = map_sum id fst (decode_pairs P items out c2)"
proof (induction items arbitrary: out c1 c2 rule: induct_list012)
  case 1
  then show ?case by simp
next
  case (2 a)
  then show ?case by simp
next
  case (3 k v zs)
  from 3(3) have fk: "flat_scalar k" and fv: "flat_scalar v" and fz: "list_all flat_scalar zs"
    by simp_all
  from 3(4) flat_decode [OF fk, of c1 P True] obtain a1 where
    a1: "cache_idx a1 \<le> cache_idx c1 + 1"
      "decode P k c1 True = (case scalar_value P k of Inl e \<Rightarrow> Inl e | Inr v \<Rightarrow> Inr (v, a1))"
    by auto
  from 3(5) flat_decode [OF fk, of c2 P True] obtain a2 where
    a2: "cache_idx a2 \<le> cache_idx c2 + 1"
      "decode P k c2 True = (case scalar_value P k of Inl e \<Rightarrow> Inl e | Inr v \<Rightarrow> Inr (v, a2))"
    by auto
  from 3(4) a1(1) flat_decode [OF fv, of a1 P False] obtain b1 where
    b1: "cache_idx b1 \<le> cache_idx a1 + 1"
      "decode P v a1 False = (case scalar_value P v of Inl e \<Rightarrow> Inl e | Inr v \<Rightarrow> Inr (v, b1))"
    by auto
  from 3(5) a2(1) flat_decode [OF fv, of a2 P False] obtain b2 where
    b2: "cache_idx b2 \<le> cache_idx a2 + 1"
      "decode P v a2 False = (case scalar_value P v of Inl e \<Rightarrow> Inl e | Inr v \<Rightarrow> Inr (v, b2))"
    by auto
  have l1: "cache_idx b1 + length zs \<le> 49018816" using a1(1) b1(1) 3(4) by simp
  have l2: "cache_idx b2 + length zs \<le> 49018816" using a2(1) b2(1) 3(5) by simp
  note IH = 3(1) [OF fz l1 l2]
  show ?case
    using a1(2) a2(2) b1(2) b2(2) IH
    by (simp del: decode.simps split: sum.splits)
qed

lemma decode_tree_alt: "decode_tree P j = map_sum id fst (decode P j new_cache False)"
  by (simp add: decode_tree_def split: sum.splits prod.splits)

lemma cmap_forms:
  assumes "list_all flat_scalar payload" and "length payload < 49018816"
  shows "decode_transit P (JObj [(str ''~#cmap'', JArr payload)])
       = decode_transit P (JArr (JStr (str ''^ '') # payload))"
proof -
  have c0: "cache (str ''~#cmap'') False new_cache
      = Inr \<lparr>cache_map = [str ''^0'' \<mapsto> str ''~#cmap''], cache_idx = 1\<rparr>"
    by (simp add: eval_defs)
  have tg: "startswith (str ''~#cmap'') (str ''~#'')" "drop 2 (str ''~#cmap'') = str ''cmap''"
    by (simp_all add: startswith_def str_def)
  have v: "decode P (JObj [(str ''~#cmap'', JArr payload)]) new_cache False
      = decode_pairs P payload [] \<lparr>cache_map = [str ''^0'' \<mapsto> str ''~#cmap''], cache_idx = 1\<rparr>"
    using c0 tg dtv_cmap [of P payload] by (simp del: decode_tagged_verbose.simps)
  have k: "decode P (JArr (JStr (str ''^ '') # payload)) new_cache False
      = decode_pairs P payload [] new_cache"
    by simp
  have "map_sum id fst (decode_pairs P payload []
          \<lparr>cache_map = [str ''^0'' \<mapsto> str ''~#cmap''], cache_idx = 1\<rparr>)
      = map_sum id fst (decode_pairs P payload [] new_cache)"
    using assms by (intro flat_pairs) (simp_all add: new_cache_def)
  then show ?thesis
    by (simp add: decode_transit_def decode_tree_alt v k del: decode.simps)
qed

text \<open>
  Claim C8, as the code has it. \<open>{"~#cmap": ["~:a", 1, "~:b", 2]}\<close> and
  \<open>["^ ", "~:a", 1, "~:b", 2]\<close> both decode to the mapping \<open>a \<mapsto> 1, b \<mapsto> 2\<close> in that
  order. For every flat payload that holds no cache reference (and fewer than 49018816
  elements, so that every reference code exists) the verbose and the compact form give
  the same result. The verbose form registers its key \<open>~#cmap\<close> first, so the indices
  of the two walks differ by one and a reference inside the payload resolves differently.
\<close>

theorem map_forms_agree:
  "decode_transit P
      (JObj [(str ''~#cmap'', JArr [JStr (str ''~:a''), JInt 1, JStr (str ''~:b''), JInt 2])])
     = Inr (DDict [(DStr (str ''a''), DInt 1), (DStr (str ''b''), DInt 2)])
   \<and> decode_transit P
      (JArr [JStr (str ''^ ''), JStr (str ''~:a''), JInt 1, JStr (str ''~:b''), JInt 2])
     = Inr (DDict [(DStr (str ''a''), DInt 1), (DStr (str ''b''), DInt 2)])
   \<and> (list_all flat_scalar payload \<and> length payload < 49018816 \<longrightarrow>
        decode_transit P (JObj [(str ''~#cmap'', JArr payload)])
          = decode_transit P (JArr (JStr (str ''^ '') # payload)))"
proof -
  have a: "decode_transit P
      (JObj [(str ''~#cmap'', JArr [JStr (str ''~:a''), JInt 1, JStr (str ''~:b''), JInt 2])])
     = Inr (DDict [(DStr (str ''a''), DInt 1), (DStr (str ''b''), DInt 2)])"
    by (simp add: eval_defs)
  have b: "decode_transit P
      (JArr [JStr (str ''^ ''), JStr (str ''~:a''), JInt 1, JStr (str ''~:b''), JInt 2])
     = Inr (DDict [(DStr (str ''a''), DInt 1), (DStr (str ''b''), DInt 2)])"
    by (simp add: eval_defs)
  show ?thesis using a b cmap_forms [of payload P] by blast
qed

theorem map_forms_agree_witness:
  "list_all flat_scalar
      [JStr (str ''~:aaaa''), JInt 1, JStr (str ''name''), JBool True, JNull :: (int \<times> nat) json]
   \<and> length [JStr (str ''~:aaaa''), JInt 1, JStr (str ''name''), JBool True, JNull :: (int \<times> nat) json]
       < 49018816
   \<and> decode_transit example_platform
        (JArr [JStr (str ''^ ''), JStr (str ''~:aaaa''), JInt 1, JStr (str ''name''), JBool True, JNull])
       = Inr (DDict [(DStr (str ''aaaa''), DInt 1), (DStr (str ''name''), DBool True)])
   \<and> decode_transit example_platform
        (JObj [(str ''~#cmap'',
                JArr [JStr (str ''~:aaaa''), JInt 1, JStr (str ''name''), JBool True, JNull])])
       = Inr (DDict [(DStr (str ''aaaa''), DInt 1), (DStr (str ''name''), DBool True)])"
proof -
  let ?p = "[JStr (str ''~:aaaa''), JInt 1, JStr (str ''name''), JBool True, JNull :: (int \<times> nat) json]"
  have f: "list_all flat_scalar ?p"
    by (simp add: flat_scalar_def is_cache_ref_def str_def)
  have l: "length ?p < 49018816" by simp
  have k: "decode_transit example_platform (JArr (JStr (str ''^ '') # ?p))
       = Inr (DDict [(DStr (str ''aaaa''), DInt 1), (DStr (str ''name''), DBool True)])"
    by (simp add: eval_defs)
  from map_forms_agree [of example_platform ?p] f l
  have "decode_transit example_platform (JObj [(str ''~#cmap'', JArr ?p)])
      = decode_transit example_platform (JArr (JStr (str ''^ '') # ?p))"
    by blast
  with f l k show ?thesis by simp
qed

text \<open>A payload with a reference: the two forms give different mappings.\<close>

theorem map_forms_differ_on_reference:
  "decode_transit example_platform
      (JObj [(str ''~#cmap'',
              JArr [JStr (str ''~:aaaa''), JInt 1, JStr (str ''^0''), JInt 2])])
     = Inr (DDict [(DStr (str ''aaaa''), DInt 1), (DStr (str ''~#cmap''), DInt 2)])
   \<and> decode_transit example_platform
      (JArr [JStr (str ''^ ''), JStr (str ''~:aaaa''), JInt 1, JStr (str ''^0''), JInt 2])
     = Inr (DDict [(DStr (str ''aaaa''), DInt 2)])"
  by (simp add: eval_defs)

section \<open>When the decoder returns\<close>

text \<open>
  Three things in \<open>transit.py\<close> raise an exception that no handler catches: an instant
  \<open>~m\<close> whose integer is beyond a float or beyond the platform's clock
  (\<open>OverflowError\<close>, where the handler names \<open>ValueError\<close> and \<open>OSError\<close> only), a list
  or dict used as a key of the result (\<open>TypeError\<close>), and \<open>chr\<close> at the cache index
  49018816 (\<open>ValueError\<close>). The predicates below describe the trees that meet none of
  them.
\<close>

definition instant_raises :: "'f platform \<Rightarrow> ustr \<Rightarrow> bool" where
  "instant_raises P s =
     (2 \<le> length s \<and> s ! 0 = ch CHR ''~'' \<and> s ! 1 = ch CHR ''m'' \<and>
      (case py_int P (drop 2 s) of
         None \<Rightarrow> False
       | Some n \<Rightarrow>
           float_overflow n \<or> (case utc_iso P n of Inl e \<Rightarrow> True | Inr t \<Rightarrow> False)))"

definition parse_ok :: "'f platform \<Rightarrow> ustr \<Rightarrow> bool" where
  "parse_ok P s = (\<not> instant_raises P s)"

text \<open>A node that decodes to a hashable value: anything but an array or an object.\<close>

definition is_scalar :: "'f json \<Rightarrow> bool" where
  "is_scalar j = (case j of JArr xs \<Rightarrow> False | JObj kvs \<Rightarrow> False | _ \<Rightarrow> True)"

text \<open>The elements in key position (the first of each pair) are scalars.\<close>

fun scalar_keys :: "'f json list \<Rightarrow> bool" where
  "scalar_keys (k # v # others) = (is_scalar k \<and> scalar_keys others)"
| "scalar_keys others = True"

text \<open>
  The arrays and objects that are decoded as maps: an array headed by \<open>"^ "\<close>, an array
  headed by the tag \<open>"~#cmap"\<close> (or by a reference, which may resolve to it) whose second
  element is an array, and an object whose only key is \<open>"~#cmap"\<close>.
\<close>

definition head_keys_ok :: "'f json list \<Rightarrow> bool" where
  "head_keys_ok xs =
     (case xs of
        JStr h # others \<Rightarrow>
          if h = str ''^ '' then scalar_keys others
          else (h = str ''~#cmap'' \<or> is_cache_ref h) \<and> others \<noteq> []
                 \<longrightarrow> scalar_keys (list_items (hd others))
      | _ \<Rightarrow> True)"

definition obj_keys_ok :: "(ustr \<times> 'f json) list \<Rightarrow> bool" where
  "obj_keys_ok kvs =
     (length kvs = 1 \<and> fst (hd kvs) = str ''~#cmap'' \<longrightarrow> scalar_keys (list_items (snd (hd kvs))))"

fun safe :: "'f platform \<Rightarrow> 'f json \<Rightarrow> bool"
  and safe_list :: "'f platform \<Rightarrow> 'f json list \<Rightarrow> bool"
  and safe_items :: "'f platform \<Rightarrow> (ustr \<times> 'f json) list \<Rightarrow> bool"
where
  "safe P (JStr s) = parse_ok P s"
| "safe P (JArr xs) = (safe_list P xs \<and> head_keys_ok xs)"
| "safe P (JObj kvs) = (safe_items P kvs \<and> obj_keys_ok kvs)"
| "safe P j = True"
| "safe_list P [] = True"
| "safe_list P (x # xs) = (safe P x \<and> safe_list P xs)"
| "safe_items P [] = True"
| "safe_items P ((k, v) # kvs) = (parse_ok P k \<and> safe P v \<and> safe_items P kvs)"

text \<open>
  An upper bound on the cache slots a tree takes: one for each string, each key and each
  array (whose head may be a tag).
\<close>

fun regs :: "'f json \<Rightarrow> nat"
  and regs_list :: "'f json list \<Rightarrow> nat"
  and regs_items :: "(ustr \<times> 'f json) list \<Rightarrow> nat"
where
  "regs (JStr s) = 1"
| "regs (JArr xs) = 1 + regs_list xs"
| "regs (JObj kvs) = regs_items kvs"
| "regs j = 0"
| "regs_list [] = 0"
| "regs_list (x # xs) = regs x + regs_list xs"
| "regs_items [] = 0"
| "regs_items ((k, v) # kvs) = 1 + regs v + regs_items kvs"













subsection \<open>Every function of the decoder returns\<close>




lemma safe_hd:
  "others \<noteq> [] \<Longrightarrow> safe_list P others \<Longrightarrow> safe P (hd others) \<and> regs (hd others) \<le> regs_list others"
  by (cases others) simp_all





subsection \<open>The entry point\<close>









end
